theory Spec2Isabelle
  imports Main
begin

section \<open>The crawler of internal/crawler/crawler.go\<close>

text \<open>
  The development embeds the concurrent crawler: \<open>New\<close>, \<open>Crawl\<close>, \<open>crawlPage\<close>,
  \<open>normalizeURL\<close> and \<open>resolveURL\<close>. The goroutines of a crawl are the entries of a task
  list; every entry is one call of \<open>crawlPage\<close> with a program counter. One step of the
  model is one shared-memory action of one task (a mutex-protected critical section, a
  channel send or receive, a WaitGroup operation) together with the local code before
  the next such action. A schedule, a list of task numbers, resolves the interleaving;
  every property is proved for all schedules.
\<close>

subsection \<open>Data\<close>

datatype error = InvalidSeedURL | RequestError | TransportError | StatusError int | ParseError

record page =
  URL :: string
  Title :: string
  Content :: string
  Depth :: int

text \<open>
  What \<open>crawlPage\<close> reads from a parsed goquery document: the text of the title element,
  the result of \<open>parser.ExtractMainContent\<close>, and for every \<open>a\<close> element, in document
  order, its \<open>href\<close> attribute when it has one.
\<close>

record document =
  doc_title :: string
  doc_content :: string
  doc_anchors :: "string option list"

text \<open>
  The outcome of lines 97 to 117 for one URL: \<open>http.NewRequest\<close> fails, \<open>client.Do\<close>
  fails, or a response arrives with a status code and a body that goquery parses or not.
\<close>

datatype fetch_result = NewRequestFails | DoFails | Response int "document option"

text \<open>
  The standard library and the network are parameters of the model: \<open>url.Parse\<close>,
  the methods \<open>Hostname\<close>, \<open>ResolveReference\<close> and \<open>String\<close> of a parsed URL (type \<open>'u\<close>),
  and the answer of the web to a GET request.
\<close>

record 'u env =
  url_Parse :: "string \<Rightarrow> 'u option"
  url_Hostname :: "'u \<Rightarrow> string"
  url_ResolveReference :: "'u \<Rightarrow> 'u \<Rightarrow> 'u"
  url_String :: "'u \<Rightarrow> string"
  http_Get :: "string \<Rightarrow> fetch_result"

text \<open>
  The struct \<open>Crawler\<close>. \<open>delay\<close> is the \<open>time.Duration\<close> that \<open>New\<close> computes, in
  nanoseconds. The two mutexes have no field here: each critical section is one atomic
  step. \<open>semaphore\<close> is the number of elements in the buffered channel.
\<close>

record crawler =
  baseURL :: string
  maxDepth :: int
  timeout :: int
  delay :: int
  visited :: "string \<rightharpoonup> bool"
  pages :: "page list"
  semaphore :: nat

definition semaphore_cap :: nat where
  "semaphore_cap = 5"

text \<open>Program counters of one call of \<open>crawlPage\<close>, named after the next action.\<close>

datatype pc =
    PEntry
  | PLock string
  | PAcquire string
  | PFetch string
  | PAppend string document
  | PLinks string "string option list"
  | PWait
  | PRelease "error option"
  | PRet "error option"
  | PDone "error option"

text \<open>
  A task: the three arguments of the call, the task that spawned it (none for the call
  made by \<open>Crawl\<close> itself), the counter of the call's own WaitGroup, and where it stands.
\<close>

record task =
  t_url :: string
  t_depth :: int
  t_domain :: string
  t_parent :: "nat option"
  t_wg :: int
  t_pc :: pc

text \<open>
  Observable actions, most recent first: an insertion into the visited map, a send on the
  semaphore channel, the start of the HTTP request code, an append to the page list, a
  receive from the semaphore channel. Each carries the number of the acting task.
\<close>

datatype event =
    EvVisit string nat
  | EvAcquire nat
  | EvFetch string nat
  | EvAppend string nat
  | EvRelease nat

record state = crawler +
  tasks :: "task list"
  trace :: "event list"

subsection \<open>String helpers\<close>

text \<open>\<open>strings.Index\<close> for a one-byte needle; \<open>None\<close> stands for -1.\<close>

fun strings_Index :: "string \<Rightarrow> char \<Rightarrow> nat option" where
  "strings_Index [] c = None"
| "strings_Index (x # xs) c = (if x = c then Some 0 else map_option Suc (strings_Index xs c))"

definition HasSuffix :: "string \<Rightarrow> string \<Rightarrow> bool" where
  "HasSuffix s suf = (length suf \<le> length s \<and> drop (length s - length suf) s = suf)"

definition normalizeURL :: "string \<Rightarrow> string" where
  "normalizeURL rawURL =
     (case strings_Index rawURL (CHR ''#'') of
        None \<Rightarrow> rawURL
      | Some i \<Rightarrow> if 0 < i then take i rawURL else rawURL)"

definition resolveURL :: "'u env \<Rightarrow> string \<Rightarrow> string \<Rightarrow> string option" where
  "resolveURL env base href =
     (case url_Parse env base of
        None \<Rightarrow> None
      | Some baseURL' \<Rightarrow>
          (case url_Parse env href of
             None \<Rightarrow> None
           | Some refURL \<Rightarrow> Some (url_String env (url_ResolveReference env baseURL' refURL))))"

subsection \<open>crawlPage\<close>

text \<open>The read \<open>c.visited[k]\<close> of a Go map: a missing key reads as false.\<close>

definition lookup :: "(string \<rightharpoonup> bool) \<Rightarrow> string \<Rightarrow> bool" where
  "lookup m k = (case m k of None \<Rightarrow> False | Some b \<Rightarrow> b)"

text \<open>Lines 97 to 120: the error returned, or the parsed document.\<close>

fun fetch_outcome :: "fetch_result \<Rightarrow> error + document" where
  "fetch_outcome NewRequestFails = Inl RequestError"
| "fetch_outcome DoFails = Inl TransportError"
| "fetch_outcome (Response st body) =
     (if st \<noteq> 200 then Inl (StatusError st)
      else case body of None \<Rightarrow> Inl ParseError | Some d \<Rightarrow> Inr d)"

text \<open>
  The body of the closure given to \<open>Each\<close> (lines 143 to 163) for one anchor: the
  absolute URL of the goroutine it starts, or \<open>None\<close> when it returns early.
\<close>

definition link_target :: "'u env \<Rightarrow> string \<Rightarrow> string \<Rightarrow> string option \<Rightarrow> string option" where
  "link_target env normalizedURL baseDomain a =
     (case a of
        None \<Rightarrow> None
      | Some href \<Rightarrow>
          (case resolveURL env normalizedURL href of
             None \<Rightarrow> None
           | Some absoluteURL \<Rightarrow>
               (case url_Parse env absoluteURL of
                  None \<Rightarrow> None
                | Some parsedURL \<Rightarrow>
                    if url_Hostname env parsedURL \<noteq> baseDomain then None
                    else if HasSuffix absoluteURL ''.pdf'' \<or> HasSuffix absoluteURL ''.zip''
                    then None
                    else Some absoluteURL)))"

definition set_pc :: "nat \<Rightarrow> pc \<Rightarrow> state \<Rightarrow> state" where
  "set_pc i p s = s\<lparr>tasks := (tasks s)[i := (tasks s ! i)\<lparr>t_pc := p\<rparr>]\<rparr>"

definition log :: "event \<Rightarrow> state \<Rightarrow> state" where
  "log e s = s\<lparr>trace := e # trace s\<rparr>"

text \<open>\<open>wg.Add(1)\<close> and the \<open>go\<close> statement of lines 165 to 169, executed by task \<open>i\<close>.\<close>

definition spawn :: "nat \<Rightarrow> string \<Rightarrow> state \<Rightarrow> state" where
  "spawn i absoluteURL s =
     (let t = tasks s ! i in
      s\<lparr>tasks := (tasks s)[i := t\<lparr>t_wg := t_wg t + 1\<rparr>] @
           [\<lparr>t_url = absoluteURL, t_depth = t_depth t + 1, t_domain = t_domain t,
             t_parent = Some i, t_wg = 0, t_pc = PEntry\<rparr>]\<rparr>)"

text \<open>The deferred \<open>wg.Done()\<close> of a finished goroutine, on the WaitGroup of task \<open>p\<close>.\<close>

definition wg_Done :: "nat \<Rightarrow> state \<Rightarrow> state" where
  "wg_Done p s = s\<lparr>tasks := (tasks s)[p := (tasks s ! p)\<lparr>t_wg := t_wg (tasks s ! p) - 1\<rparr>]\<rparr>"

text \<open>
  One step of task \<open>i\<close>, whose record is \<open>t\<close>, at each program counter. \<open>None\<close> means that
  the task cannot move now: it is blocked on the full channel (line 88), in
  \<open>wg.Wait()\<close> (line 172), or it has finished.
  \<^item> \<open>PEntry\<close>: the depth check of line 71 and the canonical URL of line 76.
  \<^item> \<open>PLock\<close>: lines 79 to 85. They run under \<open>visitedMux\<close> and nothing else reads or
    writes the map, so the check and the insertion are one step.
  \<^item> \<open>PAcquire\<close>: the send of line 88, possible while the channel holds fewer than 5
    elements.
  \<^item> \<open>PFetch\<close>: lines 92 to 120, the request and the parse; on an error the call goes on
    to its deferred receive with that error.
  \<^item> \<open>PAppend\<close>: lines 123 to 136, the append under \<open>pagesMux\<close>.
  \<^item> \<open>PLinks\<close>: one round of the loop of lines 142 to 170 for the next anchor.
  \<^item> \<open>PWait\<close>: \<open>wg.Wait()\<close>, possible when the counter is 0.
  \<^item> \<open>PRelease\<close>: the deferred receive of line 89. It runs at every return that
    follows line 88, hence after \<open>wg.Wait()\<close> on the path through line 173.
  \<^item> \<open>PRet\<close>: the call has returned; a goroutine runs its deferred \<open>wg.Done()\<close> and
    drops the error (line 168), the first call hands its error to \<open>Crawl\<close>.
\<close>

fun crawlPage :: "'u env \<Rightarrow> nat \<Rightarrow> task \<Rightarrow> pc \<Rightarrow> state \<Rightarrow> state option" where
  "crawlPage env i t PEntry s =
     Some (if maxDepth s < t_depth t then set_pc i (PRet None) s
           else set_pc i (PLock (normalizeURL (t_url t))) s)"
| "crawlPage env i t (PLock n) s =
     Some (if lookup (visited s) n then set_pc i (PRet None) s
           else set_pc i (PAcquire n) (log (EvVisit n i) (s\<lparr>visited := (visited s)(n \<mapsto> True)\<rparr>)))"
| "crawlPage env i t (PAcquire n) s =
     (if semaphore s < semaphore_cap
      then Some (set_pc i (PFetch n) (log (EvAcquire i) (s\<lparr>semaphore := semaphore s + 1\<rparr>)))
      else None)"
| "crawlPage env i t (PFetch n) s =
     Some (case fetch_outcome (http_Get env n) of
             Inl e \<Rightarrow> set_pc i (PRelease (Some e)) (log (EvFetch n i) s)
           | Inr d \<Rightarrow> set_pc i (PAppend n d) (log (EvFetch n i) s))"
| "crawlPage env i t (PAppend n d) s =
     Some (set_pc i (PLinks n (doc_anchors d))
            (log (EvAppend n i)
              (s\<lparr>pages := pages s @
                   [\<lparr>URL = n, Title = doc_title d, Content = doc_content d, Depth = t_depth t\<rparr>]\<rparr>)))"
| "crawlPage env i t (PLinks n []) s = Some (set_pc i PWait s)"
| "crawlPage env i t (PLinks n (a # as)) s =
     Some (case link_target env n (t_domain t) a of
             None \<Rightarrow> set_pc i (PLinks n as) s
           | Some absoluteURL \<Rightarrow> set_pc i (PLinks n as) (spawn i absoluteURL s))"
| "crawlPage env i t PWait s = (if t_wg t = 0 then Some (set_pc i (PRelease None) s) else None)"
| "crawlPage env i t (PRelease e) s =
     (if semaphore s = 0 then None
      else Some (set_pc i (PRet e) (log (EvRelease i) (s\<lparr>semaphore := semaphore s - 1\<rparr>))))"
| "crawlPage env i t (PRet e) s =
     Some (case t_parent t of
             None \<Rightarrow> set_pc i (PDone e) s
           | Some p \<Rightarrow> wg_Done p (set_pc i (PDone e) s))"
| "crawlPage env i t (PDone e) s = None"

definition step :: "'u env \<Rightarrow> nat \<Rightarrow> state \<Rightarrow> state option" where
  "step env i s =
     (if i < length (tasks s) then crawlPage env i (tasks s ! i) (t_pc (tasks s ! i)) s else None)"

text \<open>A schedule names the task that moves next; a task that cannot move leaves the state as it is.\<close>

fun run :: "'u env \<Rightarrow> nat list \<Rightarrow> state \<Rightarrow> state" where
  "run env [] s = s"
| "run env (i # sched) s = run env sched (case step env i s of None \<Rightarrow> s | Some s' \<Rightarrow> s')"

subsection \<open>New and Crawl\<close>

text \<open>
  \<open>New\<close>. The last argument is the duration \<open>delaySeconds * float64(time.Second)\<close>
  already converted; the floating-point product is not modelled.
\<close>

definition New :: "string \<Rightarrow> int \<Rightarrow> int \<Rightarrow> int \<Rightarrow> crawler" where
  "New b d t dl =
     \<lparr>baseURL = b, maxDepth = d, timeout = t, delay = dl,
      visited = Map.empty, pages = [], semaphore = 0\<rparr>"

text \<open>The state at line 60: the call \<open>c.crawlPage(c.baseURL, 0, baseDomain)\<close> is about to run.\<close>

definition start :: "crawler \<Rightarrow> string \<Rightarrow> state" where
  "start c baseDomain =
     \<lparr>baseURL = baseURL c, maxDepth = maxDepth c, timeout = timeout c, delay = delay c,
      visited = visited c, pages = pages c, semaphore = semaphore c,
      tasks = [\<lparr>t_url = baseURL c, t_depth = 0, t_domain = baseDomain, t_parent = None,
                t_wg = 0, t_pc = PEntry\<rparr>],
      trace = []\<rparr>"

text \<open>The state of a crawl after a schedule; \<open>None\<close> when line 53 returned before any task ran.\<close>

definition Crawl_state :: "'u env \<Rightarrow> crawler \<Rightarrow> nat list \<Rightarrow> state option" where
  "Crawl_state env c sched =
     (case url_Parse env (baseURL c) of
        None \<Rightarrow> None
      | Some baseURLParsed \<Rightarrow> Some (run env sched (start c (url_Hostname env baseURLParsed))))"

text \<open>What the first call returned, if it has returned.\<close>

definition returned :: "state \<Rightarrow> error option option" where
  "returned s =
     (case tasks s of
        [] \<Rightarrow> None
      | t # _ \<Rightarrow> (case t_pc t of PDone e \<Rightarrow> Some e | _ \<Rightarrow> None))"

text \<open>
  The result of \<open>Crawl\<close> under a schedule: \<open>Inl\<close> is the pair \<open>(nil, err)\<close>, \<open>Inr\<close> the pair
  \<open>(c.pages, nil)\<close>, and \<open>None\<close> says that \<open>Crawl\<close> has not returned when the schedule ends.
\<close>

definition Crawl :: "'u env \<Rightarrow> crawler \<Rightarrow> nat list \<Rightarrow> (error + page list) option" where
  "Crawl env c sched =
     (case Crawl_state env c sched of
        None \<Rightarrow> Some (Inl InvalidSeedURL)
      | Some s \<Rightarrow>
          (case returned s of
             None \<Rightarrow> None
           | Some None \<Rightarrow> Some (Inr (pages s))
           | Some (Some e) \<Rightarrow> Some (Inl e)))"

section \<open>Events, counters and invariants of a crawl\<close>

text \<open>The (URL, task) pairs of the insertions, fetches and appends of a trace, most recent first.\<close>

fun visits :: "event list \<Rightarrow> (string \<times> nat) list" where
  "visits [] = []"
| "visits (EvVisit n i # es) = (n, i) # visits es"
| "visits (e # es) = visits es"

fun fetches :: "event list \<Rightarrow> (string \<times> nat) list" where
  "fetches [] = []"
| "fetches (EvFetch n i # es) = (n, i) # fetches es"
| "fetches (e # es) = fetches es"

fun appends :: "event list \<Rightarrow> (string \<times> nat) list" where
  "appends [] = []"
| "appends (EvAppend n i # es) = (n, i) # appends es"
| "appends (e # es) = appends es"

text \<open>
  Every fetch comes after the insertion of the same URL by the same task, every append
  after the fetch of the same URL by the same task (the head of a trace is its latest event).
\<close>

fun ordered :: "event list \<Rightarrow> bool" where
  "ordered [] = True"
| "ordered (EvFetch n i # es) = ((n, i) \<in> set (visits es) \<and> ordered es)"
| "ordered (EvAppend n i # es) = ((n, i) \<in> set (fetches es) \<and> ordered es)"
| "ordered (e # es) = ordered es"

text \<open>
  Tasks that are between the send on the channel (line 88) and the deferred receive
  (line 89), and tasks that are in the request code (lines 92 to 120).
\<close>

fun holds :: "pc \<Rightarrow> bool" where
  "holds (PFetch n) = True"
| "holds (PAppend n d) = True"
| "holds (PLinks n as) = True"
| "holds PWait = True"
| "holds (PRelease e) = True"
| "holds _ = False"

fun fetching :: "pc \<Rightarrow> bool" where
  "fetching (PFetch n) = True"
| "fetching _ = False"

definition holders :: "task list \<Rightarrow> nat" where
  "holders ts = length (filter (\<lambda>t. holds (t_pc t)) ts)"

definition in_flight :: "task list \<Rightarrow> nat" where
  "in_flight ts = length (filter (\<lambda>t. fetching (t_pc t)) ts)"

text \<open>Where a task stands with respect to the channel.\<close>

fun before_acquire :: "pc \<Rightarrow> bool" where
  "before_acquire PEntry = True"
| "before_acquire (PLock n) = True"
| "before_acquire (PAcquire n) = True"
| "before_acquire _ = False"

fun finished :: "pc \<Rightarrow> bool" where
  "finished (PRet e) = True"
| "finished (PDone e) = True"
| "finished _ = False"

text \<open>
  A task is done when its goroutine has ended. \<open>pending i\<close> counts the goroutines
  started by task \<open>i\<close> that have not ended.
\<close>

fun is_done :: "pc \<Rightarrow> bool" where
  "is_done (PDone e) = True"
| "is_done _ = False"

fun spawning :: "pc \<Rightarrow> bool" where
  "spawning (PLinks n as) = True"
| "spawning PWait = True"
| "spawning _ = False"

definition child_of :: "nat \<Rightarrow> task \<Rightarrow> bool" where
  "child_of i t = (t_parent t = Some i \<and> \<not> is_done (t_pc t))"

definition pending :: "nat \<Rightarrow> task list \<Rightarrow> nat" where
  "pending i ts = length (filter (child_of i) ts)"

text \<open>
  The hostname of a URL string: \<open>url.Parse\<close>, then \<open>Hostname\<close>. In net/url it depends
  only on the part of the string before the fragment sign; \<open>fragment_blind\<close> says so of
  the library the model is given.
\<close>

definition hostname_of :: "'u env \<Rightarrow> string \<Rightarrow> string option" where
  "hostname_of env r = (case url_Parse env r of None \<Rightarrow> None | Some u \<Rightarrow> Some (url_Hostname env u))"

definition fragment_blind :: "'u env \<Rightarrow> bool" where
  "fragment_blind env =
     (\<forall>r. hostname_of env r \<noteq> None \<longrightarrow> hostname_of env (normalizeURL r) = hostname_of env r)"

text \<open>No task can move.\<close>

definition stuck :: "'u env \<Rightarrow> state \<Rightarrow> bool" where
  "stuck env s = list_all (\<lambda>i. step env i s = None) [0..<length (tasks s)]"

text \<open>The arguments of a call and its parent never change.\<close>

definition same_args :: "task \<Rightarrow> task \<Rightarrow> bool" where
  "same_args t t' =
     (t_url t' = t_url t \<and> t_depth t' = t_depth t \<and> t_domain t' = t_domain t \<and>
      t_parent t' = t_parent t)"

text \<open>
  The task list is a tree rooted in the call made by \<open>Crawl\<close>: task 0 has the seed
  URL and depth 0; every other task was started by an earlier task and has depth at
  least 1.
\<close>

definition inv_tree :: "state \<Rightarrow> bool" where
  "inv_tree s =
     (tasks s \<noteq> [] \<and> t_url (tasks s ! 0) = baseURL s \<and> t_depth (tasks s ! 0) = 0 \<and>
      t_parent (tasks s ! 0) = None \<and>
      (\<forall>j<length (tasks s). 0 \<le> t_depth (tasks s ! j) \<and>
         (0 < j \<longrightarrow> 1 \<le> t_depth (tasks s ! j) \<and> (\<exists>p<j. t_parent (tasks s ! j) = Some p))))"

text \<open>A task past the check of line 71 has a depth within \<open>maxDepth\<close>, and so has every page.\<close>

fun checked :: "pc \<Rightarrow> bool" where
  "checked PEntry = False"
| "checked (PRet e) = (e \<noteq> None)"
| "checked (PDone e) = (e \<noteq> None)"
| "checked _ = True"

definition inv_depth :: "state \<Rightarrow> bool" where
  "inv_depth s =
     ((\<forall>j<length (tasks s). checked (t_pc (tasks s ! j)) \<longrightarrow> t_depth (tasks s ! j) \<le> maxDepth s) \<and>
      (\<forall>p\<in>set (pages s). 0 \<le> Depth p \<and> Depth p \<le> maxDepth s))"

text \<open>The URL a program counter carries is the canonical form of the task's URL.\<close>

fun pc_url :: "pc \<Rightarrow> string option" where
  "pc_url (PLock n) = Some n"
| "pc_url (PAcquire n) = Some n"
| "pc_url (PFetch n) = Some n"
| "pc_url (PAppend n d) = Some n"
| "pc_url (PLinks n as) = Some n"
| "pc_url _ = None"

definition inv_norm :: "state \<Rightarrow> bool" where
  "inv_norm s =
     (\<forall>j<length (tasks s). \<forall>n. pc_url (t_pc (tasks s ! j)) = Some n \<longrightarrow>
        n = normalizeURL (t_url (tasks s ! j)))"

text \<open>
  The trace has no URL twice among its insertions, its fetches or its appends; fetches
  are by inserting tasks and appends by fetching tasks; the visited map holds exactly
  the inserted URLs and the page list exactly the appended ones.
\<close>

definition inv_log :: "state \<Rightarrow> bool" where
  "inv_log s =
     (distinct (map fst (visits (trace s))) \<and> distinct (map fst (fetches (trace s))) \<and>
      distinct (map fst (appends (trace s))) \<and>
      set (fetches (trace s)) \<subseteq> set (visits (trace s)) \<and>
      set (appends (trace s)) \<subseteq> set (fetches (trace s)) \<and>
      (\<forall>n. lookup (visited s) n = (n \<in> fst ` set (visits (trace s)))) \<and>
      map URL (pages s) = rev (map fst (appends (trace s))) \<and>
      ordered (trace s))"

text \<open>
  A task about to fetch has inserted its URL, which nobody has fetched; a task about to
  append has fetched its URL, which nobody has appended.
\<close>

definition inv_owner :: "state \<Rightarrow> bool" where
  "inv_owner s =
     (\<forall>j<length (tasks s). \<forall>n.
        ((t_pc (tasks s ! j) = PAcquire n \<or> t_pc (tasks s ! j) = PFetch n) \<longrightarrow>
           (n, j) \<in> set (visits (trace s)) \<and> n \<notin> fst ` set (fetches (trace s))) \<and>
        (\<forall>d. t_pc (tasks s ! j) = PAppend n d \<longrightarrow>
           (n, j) \<in> set (fetches (trace s)) \<and> n \<notin> fst ` set (appends (trace s))))"

text \<open>
  A task about to append holds the document the web gives for its URL; a task that
  carries an error got it as the outcome for its URL; every page comes from a
  successful outcome.
\<close>

fun pc_err :: "pc \<Rightarrow> error option" where
  "pc_err (PRelease e) = e"
| "pc_err (PRet e) = e"
| "pc_err (PDone e) = e"
| "pc_err _ = None"

definition inv_web :: "'u env \<Rightarrow> state \<Rightarrow> bool" where
  "inv_web env s =
     ((\<forall>j<length (tasks s). \<forall>n d. t_pc (tasks s ! j) = PAppend n d \<longrightarrow>
         fetch_outcome (http_Get env n) = Inr d) \<and>
      (\<forall>j<length (tasks s). \<forall>e. pc_err (t_pc (tasks s ! j)) = Some e \<longrightarrow>
         fetch_outcome (http_Get env (normalizeURL (t_url (tasks s ! j)))) = Inl e) \<and>
      (\<forall>p\<in>set (pages s). \<exists>d. fetch_outcome (http_Get env (URL p)) = Inr d \<and>
         Title p = doc_title d \<and> Content p = doc_content d))"

text \<open>
  Until the first call inserts the seed URL nothing has happened; afterwards the seed
  URL is known as inserted by task 0.
\<close>

definition fresh :: "state \<Rightarrow> bool" where
  "fresh s = (trace s = [] \<and> length (tasks s) = 1 \<and> pages s = [] \<and> visited s = Map.empty \<and>
     semaphore s = 0)"

fun started :: "pc \<Rightarrow> bool" where
  "started PEntry = False"
| "started (PLock n) = False"
| "started _ = True"

definition inv_seed :: "state \<Rightarrow> bool" where
  "inv_seed s =
     (fresh s \<and>
        (t_pc (tasks s ! 0) = PEntry \<or>
         t_pc (tasks s ! 0) = PLock (normalizeURL (baseURL s)) \<and> 0 \<le> maxDepth s \<or>
         (t_pc (tasks s ! 0) = PRet None \<or> t_pc (tasks s ! 0) = PDone None) \<and> maxDepth s < 0) \<or>
      (normalizeURL (baseURL s), 0) \<in> set (visits (trace s)) \<and> started (t_pc (tasks s ! 0)) \<and>
        0 \<le> maxDepth s)"

text \<open>Once the first call is past its append, the seed page is in the page list.\<close>

fun appended_pc :: "pc \<Rightarrow> bool" where
  "appended_pc (PLinks n as) = True"
| "appended_pc PWait = True"
| "appended_pc (PRelease e) = (e = None)"
| "appended_pc (PRet e) = (e = None)"
| "appended_pc (PDone e) = (e = None)"
| "appended_pc _ = False"

definition inv_root_page :: "'u env \<Rightarrow> state \<Rightarrow> bool" where
  "inv_root_page env s =
     ((normalizeURL (baseURL s), 0) \<in> set (visits (trace s)) \<and> appended_pc (t_pc (tasks s ! 0)) \<longrightarrow>
      (\<exists>d. fetch_outcome (http_Get env (normalizeURL (baseURL s))) = Inr d \<and>
         \<lparr>URL = normalizeURL (baseURL s), Title = doc_title d, Content = doc_content d,
           Depth = 0\<rparr> \<in> set (pages s)))"

text \<open>A page has the canonical seed URL exactly when its depth is 0.\<close>

definition inv_seed_depth :: "state \<Rightarrow> bool" where
  "inv_seed_depth s =
     (\<forall>p\<in>set (pages s). (URL p = normalizeURL (baseURL s)) = (Depth p = 0))"

text \<open>The channel holds one element for each task that holds a slot, and at most its capacity.\<close>

definition inv_sem :: "state \<Rightarrow> bool" where
  "inv_sem s = (semaphore s = holders (tasks s) \<and> semaphore s \<le> semaphore_cap)"

text \<open>
  Sends and receives of one task: none before line 88; one send and no receive while
  it holds a slot; afterwards as many receives as sends, at most one.
\<close>

definition slot_ok :: "event list \<Rightarrow> nat \<Rightarrow> pc \<Rightarrow> bool" where
  "slot_ok tr j p =
     (if before_acquire p then count_list tr (EvAcquire j) = 0 \<and> count_list tr (EvRelease j) = 0
      else if holds p then count_list tr (EvAcquire j) = 1 \<and> count_list tr (EvRelease j) = 0
      else count_list tr (EvAcquire j) = count_list tr (EvRelease j) \<and>
           count_list tr (EvRelease j) \<le> 1)"

definition inv_pair :: "state \<Rightarrow> bool" where
  "inv_pair s =
     (\<forall>j. if j < length (tasks s) then slot_ok (trace s) j (t_pc (tasks s ! j))
          else count_list (trace s) (EvAcquire j) = 0 \<and> count_list (trace s) (EvRelease j) = 0)"

text \<open>
  The WaitGroup counter of a task is the number of its goroutines that have not ended,
  and only a task in the link loop or in \<open>wg.Wait()\<close> has any.
\<close>

definition inv_wg :: "state \<Rightarrow> bool" where
  "inv_wg s =
     (\<forall>i. if i < length (tasks s)
          then t_wg (tasks s ! i) = int (pending i (tasks s)) \<and>
               (\<not> spawning (t_pc (tasks s ! i)) \<longrightarrow> pending i (tasks s) = 0)
          else pending i (tasks s) = 0)"

text \<open>
  Every call of \<open>crawlPage\<close> has the same \<open>baseDomain\<close> \<open>d\<close>, which is the hostname of its
  URL and of every page.
\<close>

definition inv_domain :: "'u env \<Rightarrow> string \<Rightarrow> state \<Rightarrow> bool" where
  "inv_domain env d s =
     ((\<forall>j<length (tasks s). hostname_of env (t_url (tasks s ! j)) = Some d \<and>
          t_domain (tasks s ! j) = d) \<and>
      (\<forall>p\<in>set (pages s). hostname_of env (URL p) = Some d))"

text \<open>
  The way of the first call when the visit of the seed page fails with error \<open>e\<close>: the
  number of steps it still has to make, and the states on that way. No goroutine
  exists, and the channel holds the one element of the first call or none.
\<close>

fun seed_path :: "string \<Rightarrow> error \<Rightarrow> pc \<Rightarrow> nat option" where
  "seed_path n e PEntry = Some 6"
| "seed_path n e (PLock n') = (if n' = n then Some 5 else None)"
| "seed_path n e (PAcquire n') = (if n' = n then Some 4 else None)"
| "seed_path n e (PFetch n') = (if n' = n then Some 3 else None)"
| "seed_path n e (PRelease eo) = (if eo = Some e then Some 2 else None)"
| "seed_path n e (PRet eo) = (if eo = Some e then Some 1 else None)"
| "seed_path n e (PDone eo) = (if eo = Some e then Some 0 else None)"
| "seed_path n e _ = None"

definition seed_failing :: "string \<Rightarrow> error \<Rightarrow> nat \<Rightarrow> state \<Rightarrow> bool" where
  "seed_failing n e k s =
     (length (tasks s) = 1 \<and> t_parent (tasks s ! 0) = None \<and>
      normalizeURL (t_url (tasks s ! 0)) = n \<and> t_depth (tasks s ! 0) \<le> maxDepth s \<and>
      seed_path n e (t_pc (tasks s ! 0)) = Some k \<and>
      semaphore s = (if holds (t_pc (tasks s ! 0)) then 1 else 0) \<and>
      (5 \<le> k \<longrightarrow> \<not> lookup (visited s) n))"

text \<open>All invariants that hold whatever the URL library is.\<close>

definition inv :: "'u env \<Rightarrow> state \<Rightarrow> bool" where
  "inv env s =
     (inv_tree s \<and> inv_depth s \<and> inv_norm s \<and> inv_log s \<and> inv_owner s \<and> inv_web env s \<and>
      inv_seed s \<and> inv_root_page env s \<and> inv_seed_depth s \<and> inv_sem s \<and> inv_pair s \<and>
      inv_wg s)"

section \<open>A small web for concrete runs\<close>

text \<open>
  A URL library in which a URL is any string without a space, written host, path and
  fragment, and a reference that starts with a slash is resolved against the host of the
  base. It takes the place of net/url wherever a theorem is applied to a concrete crawl.
\<close>

definition stub_host :: "string \<Rightarrow> string" where
  "stub_host u = takeWhile (\<lambda>c. c \<noteq> CHR ''/'' \<and> c \<noteq> CHR ''#'') u"

definition stub_lib :: "(string \<Rightarrow> fetch_result) \<Rightarrow> string env" where
  "stub_lib web =
     \<lparr>url_Parse = (\<lambda>r. if CHR '' '' \<in> set r then None else Some r),
      url_Hostname = stub_host,
      url_ResolveReference =
        (\<lambda>b r. case r of [] \<Rightarrow> b | c # _ \<Rightarrow> if c = CHR ''/'' then stub_host b @ r else r),
      url_String = (\<lambda>u. u),
      http_Get = web\<rparr>"

text \<open>
  A site of five pages on host \<open>x\<close>. The home page links to two pages, to another host, to
  a PDF file, and has an anchor without \<open>href\<close>; both pages link to \<open>x/c\<close>, one of them
  with a fragment; \<open>x/e\<close> answers 404.
\<close>

definition site_web :: "string \<Rightarrow> fetch_result" where
  "site_web u =
     (if u = ''x/'' then
        Response 200 (Some \<lparr>doc_title = ''Home'', doc_content = ''h'',
          doc_anchors = [Some ''/a'', Some ''/b'', Some ''o/page'', Some ''/f.pdf'', None]\<rparr>)
      else if u = ''x/a'' then
        Response 200 (Some \<lparr>doc_title = ''A'', doc_content = ''a'',
          doc_anchors = [Some ''/c'', Some ''/e'', Some ''/'']\<rparr>)
      else if u = ''x/b'' then
        Response 200 (Some \<lparr>doc_title = ''B'', doc_content = ''b'',
          doc_anchors = [Some ''/c#top'']\<rparr>)
      else if u = ''x/c'' then
        Response 200 (Some \<lparr>doc_title = ''C'', doc_content = ''c'', doc_anchors = []\<rparr>)
      else if u = ''x/e'' then Response 404 None
      else DoFails)"

definition site_env :: "string env" where
  "site_env = stub_lib site_web"

text \<open>Depth 2, a request timeout of 30 seconds, a delay of 2 seconds.\<close>

definition site_crawler :: crawler where
  "site_crawler = New ''x/'' 2 30 2000000000"

text \<open>
  A complete schedule: the home page (task 0), then \<open>x/a\<close> (task 1) and \<open>x/b\<close> (task 2)
  up to their \<open>wg.Wait()\<close>; tasks 3 and 6, both for \<open>x/c\<close>, race for the visited map and
  task 6 wins; task 4 gets the 404; task 5 finds the home page visited; the parents return.
\<close>

definition site_sched :: "nat list" where
  "site_sched =
     [0, 0, 0, 0, 0, 0, 0, 0, 0, 0, 0,
      1, 1, 1, 1, 1, 1, 1, 1, 1,
      2, 2, 2, 2, 2, 2, 2,
      6, 3, 6, 3, 3, 6, 6, 6, 6, 6, 6, 6,
      4, 4, 4, 4, 4, 4,
      5, 5, 5,
      1, 1, 1, 2, 2, 2, 0, 0, 0]"

definition site_final :: state where
  "site_final = run site_env site_sched (start site_crawler ''x'')"

text \<open>The same site crawled with depth 0.\<close>

definition flat_crawler :: crawler where
  "flat_crawler = New ''x/'' 0 30 0"

definition flat_sched :: "nat list" where
  "flat_sched = [0, 0, 0, 0, 0, 0, 0, 0, 0, 0, 0, 1, 1, 2, 2, 0, 0, 0]"

definition flat_final :: state where
  "flat_final = run site_env flat_sched (start flat_crawler ''x'')"

text \<open>
  A chain of six pages, each linking to the next, crawled with depth 5; every task runs
  up to its \<open>wg.Wait()\<close> before its child starts.
\<close>

definition chain_web :: "string \<Rightarrow> fetch_result" where
  "chain_web u =
     (if u = ''x/'' then
        Response 200 (Some \<lparr>doc_title = ''0'', doc_content = '''', doc_anchors = [Some ''/1'']\<rparr>)
      else if u = ''x/1'' then
        Response 200 (Some \<lparr>doc_title = ''1'', doc_content = '''', doc_anchors = [Some ''/2'']\<rparr>)
      else if u = ''x/2'' then
        Response 200 (Some \<lparr>doc_title = ''2'', doc_content = '''', doc_anchors = [Some ''/3'']\<rparr>)
      else if u = ''x/3'' then
        Response 200 (Some \<lparr>doc_title = ''3'', doc_content = '''', doc_anchors = [Some ''/4'']\<rparr>)
      else if u = ''x/4'' then
        Response 200 (Some \<lparr>doc_title = ''4'', doc_content = '''', doc_anchors = [Some ''/5'']\<rparr>)
      else if u = ''x/5'' then
        Response 200 (Some \<lparr>doc_title = ''5'', doc_content = '''', doc_anchors = []\<rparr>)
      else DoFails)"

definition chain_env :: "string env" where
  "chain_env = stub_lib chain_web"

definition chain_crawler :: crawler where
  "chain_crawler = New ''x/'' 5 30 0"

definition chain_sched :: "nat list" where
  "chain_sched =
     [0, 0, 0, 0, 0, 0, 0,
      1, 1, 1, 1, 1, 1, 1,
      2, 2, 2, 2, 2, 2, 2,
      3, 3, 3, 3, 3, 3, 3,
      4, 4, 4, 4, 4, 4, 4,
      5, 5]"

definition chain_final :: state where
  "chain_final = run chain_env chain_sched (start chain_crawler ''x'')"

section \<open>Properties\<close>

subsection \<open>normalizeURL\<close>

lemma strings_Index_None: "strings_Index u c = None \<longleftrightarrow> c \<notin> set u"
  by (induction u) auto

lemma strings_Index_Some:
  "strings_Index u c = Some i \<Longrightarrow> i < length u \<and> u ! i = c \<and> c \<notin> set (take i u)"
proof (induction u arbitrary: i)
  case Nil
  then show ?case by simp
next
  case (Cons x xs)
  show ?case
  proof (cases "x = c")
    case True
    with Cons.prems show ?thesis by simp
  next
    case False
    with Cons.prems obtain j where j: "strings_Index xs c = Some j" "i = Suc j"
      by auto
    from Cons.IH [OF j(1)] False j(2) show ?thesis by simp
  qed
qed

lemma strings_Index_append: "c \<notin> set p \<Longrightarrow> strings_Index (p @ c # f) c = Some (length p)"
  by (induction p) auto

lemma normalizeURL_no_fragment: "CHR ''#'' \<notin> set u \<Longrightarrow> normalizeURL u = u"
  by (simp add: normalizeURL_def strings_Index_None [THEN iffD2])

lemma normalizeURL_strip:
  "p \<noteq> [] \<Longrightarrow> CHR ''#'' \<notin> set p \<Longrightarrow> normalizeURL (p @ CHR ''#'' # f) = p"
  by (simp add: normalizeURL_def strings_Index_append)

lemma normalizeURL_leading: "normalizeURL (CHR ''#'' # f) = CHR ''#'' # f"
  by (simp add: normalizeURL_def)

lemma normalizeURL_cases:
  "normalizeURL u = u \<or>
   (\<exists>i. 0 < i \<and> i < length u \<and> normalizeURL u = take i u \<and> CHR ''#'' \<notin> set (take i u))"
  by (auto simp: normalizeURL_def split: option.splits dest: strings_Index_Some)

lemma normalizeURL_idem: "normalizeURL (normalizeURL u) = normalizeURL u"
  using normalizeURL_cases [of u] by (auto simp: normalizeURL_no_fragment)

subsection \<open>Steps\<close>

text \<open>
  The cases of a step, one for each branch of \<open>crawlPage\<close>, as a case rule; an invariant is
  proved by going through them.
\<close>

lemma step_cases [consumes 1, case_names EntryDeep Entry LockSeen LockNew Acquire FetchErr FetchOk
    Append LinksNil LinksSkip LinksSpawn Wait Release RetRoot RetChild]:
  assumes "step env i s = Some s'"
  obtains
    (EntryDeep) "i < length (tasks s)" "t_pc (tasks s ! i) = PEntry"
      "maxDepth s < t_depth (tasks s ! i)" "s' = set_pc i (PRet None) s"
  | (Entry) "i < length (tasks s)" "t_pc (tasks s ! i) = PEntry"
      "\<not> maxDepth s < t_depth (tasks s ! i)"
      "s' = set_pc i (PLock (normalizeURL (t_url (tasks s ! i)))) s"
  | (LockSeen) n where "i < length (tasks s)" "t_pc (tasks s ! i) = PLock n"
      "lookup (visited s) n" "s' = set_pc i (PRet None) s"
  | (LockNew) n where "i < length (tasks s)" "t_pc (tasks s ! i) = PLock n"
      "\<not> lookup (visited s) n"
      "s' = set_pc i (PAcquire n) (log (EvVisit n i) (s\<lparr>visited := (visited s)(n \<mapsto> True)\<rparr>))"
  | (Acquire) n where "i < length (tasks s)" "t_pc (tasks s ! i) = PAcquire n"
      "semaphore s < semaphore_cap"
      "s' = set_pc i (PFetch n) (log (EvAcquire i) (s\<lparr>semaphore := semaphore s + 1\<rparr>))"
  | (FetchErr) n e where "i < length (tasks s)" "t_pc (tasks s ! i) = PFetch n"
      "fetch_outcome (http_Get env n) = Inl e"
      "s' = set_pc i (PRelease (Some e)) (log (EvFetch n i) s)"
  | (FetchOk) n d where "i < length (tasks s)" "t_pc (tasks s ! i) = PFetch n"
      "fetch_outcome (http_Get env n) = Inr d"
      "s' = set_pc i (PAppend n d) (log (EvFetch n i) s)"
  | (Append) n d where "i < length (tasks s)" "t_pc (tasks s ! i) = PAppend n d"
      "s' = set_pc i (PLinks n (doc_anchors d))
            (log (EvAppend n i)
              (s\<lparr>pages := pages s @
                   [\<lparr>URL = n, Title = doc_title d, Content = doc_content d,
                     Depth = t_depth (tasks s ! i)\<rparr>]\<rparr>))"
  | (LinksNil) n where "i < length (tasks s)" "t_pc (tasks s ! i) = PLinks n []"
      "s' = set_pc i PWait s"
  | (LinksSkip) n a as where "i < length (tasks s)" "t_pc (tasks s ! i) = PLinks n (a # as)"
      "link_target env n (t_domain (tasks s ! i)) a = None" "s' = set_pc i (PLinks n as) s"
  | (LinksSpawn) n a as u where "i < length (tasks s)" "t_pc (tasks s ! i) = PLinks n (a # as)"
      "link_target env n (t_domain (tasks s ! i)) a = Some u"
      "s' = set_pc i (PLinks n as) (spawn i u s)"
  | (Wait) "i < length (tasks s)" "t_pc (tasks s ! i) = PWait" "t_wg (tasks s ! i) = 0"
      "s' = set_pc i (PRelease None) s"
  | (Release) e where "i < length (tasks s)" "t_pc (tasks s ! i) = PRelease e"
      "semaphore s \<noteq> 0"
      "s' = set_pc i (PRet e) (log (EvRelease i) (s\<lparr>semaphore := semaphore s - 1\<rparr>))"
  | (RetRoot) e where "i < length (tasks s)" "t_pc (tasks s ! i) = PRet e"
      "t_parent (tasks s ! i) = None" "s' = set_pc i (PDone e) s"
  | (RetChild) e p where "i < length (tasks s)" "t_pc (tasks s ! i) = PRet e"
      "t_parent (tasks s ! i) = Some p" "s' = wg_Done p (set_pc i (PDone e) s)"
proof -
  from assms have len: "i < length (tasks s)"
    and ex: "crawlPage env i (tasks s ! i) (t_pc (tasks s ! i)) s = Some s'"
    by (auto simp: step_def split: if_splits)
  show thesis
  proof (cases "t_pc (tasks s ! i)")
    case PEntry
    with ex len EntryDeep Entry show ?thesis by (cases "maxDepth s < t_depth (tasks s ! i)") auto
  next
    case (PLock n)
    with ex len LockSeen LockNew show ?thesis by (cases "lookup (visited s) n") auto
  next
    case (PAcquire n)
    with ex len Acquire show ?thesis by (auto split: if_splits)
  next
    case (PFetch n)
    with ex len FetchErr FetchOk show ?thesis
      by (cases "fetch_outcome (http_Get env n)") auto
  next
    case (PAppend n d)
    with ex len Append show ?thesis by auto
  next
    case (PLinks n as)
    show ?thesis
    proof (cases as)
      case Nil
      with PLinks ex len LinksNil show ?thesis by auto
    next
      case (Cons a as')
      with PLinks ex len LinksSkip LinksSpawn show ?thesis
        by (cases "link_target env n (t_domain (tasks s ! i)) a") auto
    qed
  next
    case PWait
    with ex len Wait show ?thesis by (auto split: if_splits)
  next
    case (PRelease e)
    with ex len Release show ?thesis by (auto split: if_splits)
  next
    case (PRet e)
    with ex len RetRoot RetChild show ?thesis by (cases "t_parent (tasks s ! i)") auto
  next
    case (PDone e)
    with ex show ?thesis by simp
  qed
qed

lemma run_invariant:
  assumes "P s" and "\<And>s i s'. P s \<Longrightarrow> step env i s = Some s' \<Longrightarrow> P s'"
  shows "P (run env sched s)"
  using assms(1)
proof (induction sched arbitrary: s)
  case Nil
  then show ?case by simp
next
  case (Cons i sched)
  show ?case
  proof (cases "step env i s")
    case None
    with Cons show ?thesis by simp
  next
    case (Some s')
    with Cons assms(2) [of s i s'] show ?thesis by simp
  qed
qed

lemmas upd_defs = set_pc_def log_def spawn_def wg_Done_def Let_def

lemma step_config:
  assumes "step env i s = Some s'"
  shows "baseURL s' = baseURL s \<and> maxDepth s' = maxDepth s \<and> timeout s' = timeout s \<and> delay s' = delay s"
  using assms by (cases rule: step_cases) (simp_all add: upd_defs)

lemma step_static:
  assumes "step env i s = Some s'" "j < length (tasks s)"
  shows "j < length (tasks s') \<and> same_args (tasks s ! j) (tasks s' ! j)"
  using assms by (cases rule: step_cases) (auto simp: upd_defs same_args_def nth_list_update nth_append)

lemma nth_upd: "xs[i := x] ! j = (if i = j \<and> i < length xs then x else xs ! j)"
  by (cases "i < length xs") (auto simp: nth_list_update list_update_beyond)

subsection \<open>The call tree, depths and canonical URLs\<close>

lemma inv_tree_start: "inv_tree (start c d)"
  by (simp add: inv_tree_def start_def)

lemma inv_norm_step:
  assumes "step env i s = Some s'" "inv_norm s"
  shows "inv_norm s'"
  using assms
  by (cases rule: step_cases)
     (auto simp: upd_defs inv_norm_def nth_upd nth_append)

lemma inv_tree_root:
  "inv_tree s \<Longrightarrow> 0 < length (tasks s) \<and> t_url (tasks s ! 0) = baseURL s \<and>
     t_depth (tasks s ! 0) = 0 \<and> t_parent (tasks s ! 0) = None"
  by (simp add: inv_tree_def)

lemma inv_tree_task:
  "inv_tree s \<Longrightarrow> j < length (tasks s) \<Longrightarrow>
     0 \<le> t_depth (tasks s ! j)"
  by (simp add: inv_tree_def)

lemma inv_tree_child:
  "inv_tree s \<Longrightarrow> j < length (tasks s) \<Longrightarrow> 0 < j \<Longrightarrow>
     1 \<le> t_depth (tasks s ! j) \<and> (\<exists>p<j. t_parent (tasks s ! j) = Some p)"
  by (simp add: inv_tree_def)

lemma step_new_task:
  assumes "step env i s = Some s'" "j < length (tasks s')" "\<not> j < length (tasks s)"
  shows "j = length (tasks s) \<and> i < j \<and> t_parent (tasks s' ! j) = Some i \<and>
      t_depth (tasks s' ! j) = t_depth (tasks s ! i) + 1 \<and>
      t_domain (tasks s' ! j) = t_domain (tasks s ! i) \<and> t_pc (tasks s' ! j) = PEntry \<and>
      t_wg (tasks s' ! j) = 0"
  using assms by (cases rule: step_cases) (auto simp: upd_defs nth_append)

lemma inv_tree_step:
  assumes "step env i s = Some s'" "inv_tree s"
  shows "inv_tree s'"
proof -
  note old = step_static [OF assms(1)]
  note new = step_new_task [OF assms(1)]
  note root = inv_tree_root [OF assms(2)]
  have i: "i < length (tasks s)"
    using assms(1) by (simp add: step_def split: if_splits)
  have cfg: "baseURL s' = baseURL s" using step_config [OF assms(1)] by simp
  from root have ne: "0 < length (tasks s)" by simp
  have r0: "same_args (tasks s ! 0) (tasks s' ! 0)" "0 < length (tasks s')"
    using old [OF ne] by simp_all
  have a: "tasks s' \<noteq> [] \<and> t_url (tasks s' ! 0) = baseURL s' \<and> t_depth (tasks s' ! 0) = 0 \<and>
      t_parent (tasks s' ! 0) = None"
    using r0 root cfg by (auto simp: same_args_def)
  have b: "0 \<le> t_depth (tasks s' ! j)"
    if j: "j < length (tasks s')" for j
  proof (cases "j < length (tasks s)")
    case True
    from old [OF True] inv_tree_task [OF assms(2) True] r0(1) show ?thesis
      by (simp add: same_args_def)
  next
    case False
    from new [OF j False] inv_tree_task [OF assms(2) i] r0(1) show ?thesis
      by (auto simp: same_args_def)
  qed
  have c: "1 \<le> t_depth (tasks s' ! j) \<and> (\<exists>p<j. t_parent (tasks s' ! j) = Some p)"
    if j: "j < length (tasks s')" and pos: "0 < j" for j
  proof (cases "j < length (tasks s)")
    case True
    from old [OF True] inv_tree_child [OF assms(2) True pos] show ?thesis
      by (simp add: same_args_def)
  next
    case False
    from new [OF j False] inv_tree_task [OF assms(2) i] show ?thesis
      by auto
  qed
  show ?thesis
    unfolding inv_tree_def using a b c by (intro conjI allI impI) simp_all
qed

lemma inv_depth_step:
  assumes "step env i s = Some s'" "inv_depth s" "inv_tree s"
  shows "inv_depth s'"
proof -
  have dep: "0 \<le> t_depth (tasks s ! i)"
    using assms(1,3) by (auto simp: inv_tree_def step_def split: if_splits)
  from assms(1,2) dep show ?thesis
    by (cases rule: step_cases)
       (auto simp: upd_defs inv_depth_def nth_upd nth_append)
qed

subsection \<open>Insertions, fetches and appends\<close>

lemma lookup_upd [simp]: "lookup (m(n \<mapsto> True)) k = (k = n \<or> lookup m k)"
  by (simp add: lookup_def)

lemma lookup_empty [simp]: "lookup Map.empty k = False"
  by (simp add: lookup_def)

lemma unique_owner:
  "distinct (map fst xs) \<Longrightarrow> (n, i) \<in> set xs \<Longrightarrow> (n, j) \<in> set xs \<Longrightarrow> i = j"
  by (rule eq_key_imp_eq_value)

lemma inv_log_step:
  assumes "step env i s = Some s'" "inv_log s" "inv_owner s"
  shows "inv_log s'"
  using assms
proof (cases rule: step_cases)
  case (LockNew n)
  with assms(2) show ?thesis
    by (auto simp: upd_defs inv_log_def)
next
  case (FetchErr n e)
  with assms(2,3) show ?thesis
    by (auto simp: upd_defs inv_log_def inv_owner_def)
next
  case (FetchOk n d)
  with assms(2,3) show ?thesis
    by (auto simp: upd_defs inv_log_def inv_owner_def)
next
  case (Append n d)
  with assms(2,3) show ?thesis
    by (auto simp: upd_defs inv_log_def inv_owner_def)
qed (use assms(2) in \<open>simp_all add: upd_defs inv_log_def\<close>)

lemma step_len:
  assumes "step env i s = Some s'"
  shows "i < length (tasks s) \<and> length (tasks s) \<le> length (tasks s')"
  using assms by (cases rule: step_cases) (auto simp: upd_defs)

lemma step_pc_other:
  assumes "step env i s = Some s'" "j < length (tasks s)" "j \<noteq> i"
  shows "t_pc (tasks s' ! j) = t_pc (tasks s ! j)"
  using assms by (cases rule: step_cases) (auto simp: upd_defs nth_upd nth_append)

lemma inv_ownerI:
  assumes "\<And>j n. j < length (tasks s) \<Longrightarrow>
      t_pc (tasks s ! j) = PAcquire n \<or> t_pc (tasks s ! j) = PFetch n \<Longrightarrow>
      (n, j) \<in> set (visits (trace s)) \<and> n \<notin> fst ` set (fetches (trace s))"
    and "\<And>j n d. j < length (tasks s) \<Longrightarrow> t_pc (tasks s ! j) = PAppend n d \<Longrightarrow>
      (n, j) \<in> set (fetches (trace s)) \<and> n \<notin> fst ` set (appends (trace s))"
  shows "inv_owner s"
  unfolding inv_owner_def using assms by blast

lemma inv_owner_acq:
  "t_pc (tasks s ! j) = PAcquire n \<Longrightarrow> inv_owner s \<Longrightarrow> j < length (tasks s) \<Longrightarrow>
     (n, j) \<in> set (visits (trace s)) \<and> n \<notin> fst ` set (fetches (trace s))"
  unfolding inv_owner_def by blast

lemma inv_owner_fet:
  "t_pc (tasks s ! j) = PFetch n \<Longrightarrow> inv_owner s \<Longrightarrow> j < length (tasks s) \<Longrightarrow>
     (n, j) \<in> set (visits (trace s)) \<and> n \<notin> fst ` set (fetches (trace s))"
  unfolding inv_owner_def by blast

lemma inv_owner_app:
  "t_pc (tasks s ! j) = PAppend n d \<Longrightarrow> inv_owner s \<Longrightarrow> j < length (tasks s) \<Longrightarrow>
     (n, j) \<in> set (fetches (trace s)) \<and> n \<notin> fst ` set (appends (trace s))"
  unfolding inv_owner_def by blast

lemmas inv_ownerD = inv_owner_acq inv_owner_fet inv_owner_app

lemma inv_owner_step:
  assumes "step env i s = Some s'" "inv_owner s" "inv_log s"
  shows "inv_owner s'"
proof -
  note D = inv_ownerD [OF _ assms(2)]
  from assms(3) have dv: "distinct (map fst (visits (trace s)))"
    and df: "distinct (map fst (fetches (trace s)))"
    and sub: "set (appends (trace s)) \<subseteq> set (fetches (trace s))"
    and sub2: "set (fetches (trace s)) \<subseteq> set (visits (trace s))"
    and look: "\<And>n. lookup (visited s) n = (n \<in> fst ` set (visits (trace s)))"
    by (simp_all add: inv_log_def)
  from assms(1) show ?thesis
  proof (cases rule: step_cases)
    case (LockNew n)
    with look [of n] sub2 show ?thesis
      by (intro inv_ownerI) (auto simp: upd_defs nth_upd split: if_splits dest: D)
  next
    case (FetchErr n e)
    note own = inv_owner_fet [OF FetchErr(2) assms(2) FetchErr(1)]
    have uniq: "\<And>j. (n, j) \<in> set (visits (trace s)) \<Longrightarrow> j = i"
      using unique_owner [OF dv] own by blast
    from FetchErr own show ?thesis
      by (intro inv_ownerI) (auto simp: upd_defs nth_upd split: if_splits dest: uniq dest!: D)
  next
    case (FetchOk n d)
    note own = inv_owner_fet [OF FetchOk(2) assms(2) FetchOk(1)]
    have uniq: "\<And>j. (n, j) \<in> set (visits (trace s)) \<Longrightarrow> j = i"
      using unique_owner [OF dv] own by blast
    from FetchOk own sub show ?thesis
      by (intro inv_ownerI) (auto simp: upd_defs nth_upd split: if_splits dest: uniq dest!: D)
  next
    case (Append n d)
    note own = inv_owner_app [OF Append(2) assms(2) Append(1)]
    have uniq: "\<And>j. (n, j) \<in> set (fetches (trace s)) \<Longrightarrow> j = i"
      using unique_owner [OF df] own by blast
    from Append own show ?thesis
      by (intro inv_ownerI) (auto simp: upd_defs nth_upd split: if_splits dest: uniq dest!: D)
  next
    case (LinksSpawn n a as u)
    then show ?thesis
      by (intro inv_ownerI) (auto simp: upd_defs nth_upd nth_append split: if_splits dest!: D)
  qed (intro inv_ownerI; auto simp: upd_defs nth_upd split: if_splits dest!: D)+
qed

subsection \<open>Outcomes of the web\<close>

lemma inv_webI:
  assumes "\<And>j n d. j < length (tasks s) \<Longrightarrow> t_pc (tasks s ! j) = PAppend n d \<Longrightarrow>
      fetch_outcome (http_Get env n) = Inr d"
    and "\<And>j e. j < length (tasks s) \<Longrightarrow> pc_err (t_pc (tasks s ! j)) = Some e \<Longrightarrow>
      fetch_outcome (http_Get env (normalizeURL (t_url (tasks s ! j)))) = Inl e"
    and "\<And>p. p \<in> set (pages s) \<Longrightarrow> \<exists>d. fetch_outcome (http_Get env (URL p)) = Inr d \<and>
         Title p = doc_title d \<and> Content p = doc_content d"
  shows "inv_web env s"
  unfolding inv_web_def using assms by blast

lemma inv_web_app:
  "t_pc (tasks s ! j) = PAppend n d \<Longrightarrow> inv_web env s \<Longrightarrow> j < length (tasks s) \<Longrightarrow>
     fetch_outcome (http_Get env n) = Inr d"
  unfolding inv_web_def by blast

lemma inv_web_err:
  "pc_err (t_pc (tasks s ! j)) = Some e \<Longrightarrow> inv_web env s \<Longrightarrow> j < length (tasks s) \<Longrightarrow>
     fetch_outcome (http_Get env (normalizeURL (t_url (tasks s ! j)))) = Inl e"
  unfolding inv_web_def by blast

lemma inv_web_page:
  "p \<in> set (pages s) \<Longrightarrow> inv_web env s \<Longrightarrow>
     \<exists>d. fetch_outcome (http_Get env (URL p)) = Inr d \<and>
         Title p = doc_title d \<and> Content p = doc_content d"
  unfolding inv_web_def by blast

lemma inv_norm_url:
  "pc_url (t_pc (tasks s ! j)) = Some n \<Longrightarrow> inv_norm s \<Longrightarrow> j < length (tasks s) \<Longrightarrow>
     n = normalizeURL (t_url (tasks s ! j))"
  unfolding inv_norm_def by blast

lemma inv_web_step:
  assumes "step env i s = Some s'" "inv_web env s" "inv_norm s"
  shows "inv_web env s'"
proof -
  note D = inv_web_app [OF _ assms(2)] inv_web_err [OF _ assms(2)] inv_web_page [OF _ assms(2)]
  have i: "i < length (tasks s)" using step_len [OF assms(1)] by simp
  have own: "\<forall>e. pc_err (t_pc (tasks s ! i)) = Some e \<longrightarrow>
      fetch_outcome (http_Get env (normalizeURL (t_url (tasks s ! i)))) = Inl e"
    using inv_web_err [OF _ assms(2) i] by blast
  from assms(1) show ?thesis
  proof (cases rule: step_cases)
    case (FetchErr n e)
    from inv_norm_url [OF _ assms(3) FetchErr(1)] FetchErr(2)
    have n: "n = normalizeURL (t_url (tasks s ! i))" by simp
    from FetchErr n show ?thesis
      by (intro inv_webI) (auto simp: upd_defs nth_upd split: if_splits dest!: D)
  next
    case (Append n d)
    note own = inv_web_app [OF Append(2) assms(2) Append(1)]
    from Append own show ?thesis
      by (intro inv_webI) (auto simp: upd_defs nth_upd split: if_splits dest!: D)
  next
    case (LinksSpawn n a as u)
    then show ?thesis
      by (intro inv_webI) (auto simp: upd_defs nth_upd nth_append split: if_splits dest!: D)
  qed (intro inv_webI; use own in \<open>auto simp: upd_defs nth_upd split: if_splits dest!: D\<close>)+
qed

lemma inv_web_start: "inv_web env (start (New b m t dl) d)"
  by (simp add: inv_web_def start_def New_def)

subsection \<open>The seed page\<close>

lemma visits_Cons: "set (visits tr) \<subseteq> set (visits (e # tr))"
  by (cases e) auto

lemma step_trace:
  assumes "step env i s = Some s'"
  shows "trace s' = trace s \<or> (\<exists>e. trace s' = e # trace s)"
  using assms by (cases rule: step_cases) (auto simp: upd_defs)

lemma step_visits:
  assumes "step env i s = Some s'" "x \<in> set (visits (trace s))"
  shows "x \<in> set (visits (trace s'))"
  using step_trace [OF assms(1)] assms(2) visits_Cons by fastforce

lemma inv_seed_start: "inv_seed (start (New b m t dl) d)"
  by (simp add: inv_seed_def fresh_def start_def New_def)

lemma inv_seed_step:
  assumes "step env i s = Some s'" "inv_seed s" "inv_tree s"
  shows "inv_seed s'"
proof -
  note root = inv_tree_root [OF assms(3)]
  have cfg: "baseURL s' = baseURL s" "maxDepth s' = maxDepth s"
    using step_config [OF assms(1)] by simp_all
  show ?thesis
  proof (cases "fresh s")
    case True
    then have i0: "i = 0" using step_len [OF assms(1)] by (simp add: fresh_def)
    from assms(2) True have pc0: "t_pc (tasks s ! 0) = PEntry \<or>
         t_pc (tasks s ! 0) = PLock (normalizeURL (baseURL s)) \<and> 0 \<le> maxDepth s \<or>
         (t_pc (tasks s ! 0) = PRet None \<or> t_pc (tasks s ! 0) = PDone None) \<and> maxDepth s < 0"
      by (auto simp: inv_seed_def fresh_def)
    from assms(1) pc0 True root show ?thesis
      unfolding i0
      by (cases rule: step_cases) (auto simp: upd_defs inv_seed_def fresh_def)
  next
    case False
    with assms(2) have v: "(normalizeURL (baseURL s), 0) \<in> set (visits (trace s))"
      and st: "started (t_pc (tasks s ! 0))" and m: "0 \<le> maxDepth s"
      by (auto simp: inv_seed_def)
    have st': "started (t_pc (tasks s' ! 0))"
    proof (cases "i = 0")
      case True
      from assms(1) st show ?thesis
        unfolding True
        by (cases rule: step_cases) (auto simp: upd_defs nth_upd nth_append)
    next
      case False
      with step_pc_other [OF assms(1), of 0] root st show ?thesis by simp
    qed
    from step_visits [OF assms(1) v] st' m cfg show ?thesis
      by (simp add: inv_seed_def)
  qed
qed

lemma step_pages:
  assumes "step env i s = Some s'"
  shows "set (pages s) \<subseteq> set (pages s')"
  using assms by (cases rule: step_cases) (auto simp: upd_defs)

lemma step_visits_other:
  assumes "step env i s = Some s'" "(n, j) \<in> set (visits (trace s'))" "j \<noteq> i"
  shows "(n, j) \<in> set (visits (trace s))"
  using assms by (cases rule: step_cases) (auto simp: upd_defs)

lemma inv_root_page_start: "inv_root_page env (start (New b m t dl) d)"
  by (simp add: inv_root_page_def start_def New_def)

lemma inv_root_page_step:
  assumes "step env i s = Some s'" "inv_root_page env s" "inv_seed s" "inv_tree s" "inv_norm s"
    "inv_web env s"
  shows "inv_root_page env s'"
proof -
  note root = inv_tree_root [OF assms(4)]
  have cfg: "baseURL s' = baseURL s"
    using step_config [OF assms(1)] by simp
  show ?thesis
  proof (cases "i = 0")
    case False
    with step_pc_other [OF assms(1), of 0] root
    have pc: "t_pc (tasks s' ! 0) = t_pc (tasks s ! 0)" by simp
    from step_visits_other [OF assms(1) _ False [symmetric]] step_pages [OF assms(1)] assms(2) pc cfg
    show ?thesis
      by (auto simp: inv_root_page_def)
  next
    case True
    have early: "trace s = []" if "\<not> started (t_pc (tasks s ! 0))"
      using that assms(3) by (auto simp: inv_seed_def fresh_def)
    from assms(1) show ?thesis
      unfolding True
    proof (cases rule: step_cases)
      case EntryDeep
      with early show ?thesis by (simp add: inv_root_page_def upd_defs)
    next
      case Entry
      with early show ?thesis by (simp add: inv_root_page_def upd_defs)
    next
      case (LockSeen n)
      with early show ?thesis by (simp add: inv_root_page_def upd_defs)
    next
      case (Append n d)
      from inv_norm_url [OF _ assms(5) Append(1)] Append(2) root
      have n: "n = normalizeURL (baseURL s)" by simp
      from inv_web_app [OF Append(2) assms(6) Append(1)] Append n root show ?thesis
        by (auto simp: inv_root_page_def upd_defs)
    next
      case (RetChild e p)
      with root show ?thesis by simp
    qed (use assms(2) in \<open>auto simp: inv_root_page_def upd_defs nth_upd nth_append\<close>)
  qed
qed

lemma inv_seed_depth_start: "inv_seed_depth (start (New b m t dl) d)"
  by (simp add: inv_seed_depth_def start_def New_def)

lemma inv_seed_depth_step:
  assumes "step env i s = Some s'" "inv_seed_depth s" "inv_seed s" "inv_tree s" "inv_norm s"
    "inv_owner s" "inv_log s"
  shows "inv_seed_depth s'"
  using assms(1)
proof (cases rule: step_cases)
  case (Append n d)
  note root = inv_tree_root [OF assms(4)]
  from inv_norm_url [OF _ assms(5) Append(1)] Append(2)
  have n: "n = normalizeURL (t_url (tasks s ! i))" by simp
  have new: "(n = normalizeURL (baseURL s)) = (t_depth (tasks s ! i) = 0)"
  proof (cases "i = 0")
    case True
    with n root show ?thesis by simp
  next
    case False
    with inv_tree_child [OF assms(4) Append(1)] have d: "1 \<le> t_depth (tasks s ! i)" by simp
    from False Append(1) assms(3) have v: "(normalizeURL (baseURL s), 0) \<in> set (visits (trace s))"
      by (auto simp: inv_seed_def fresh_def)
    from inv_owner_app [OF Append(2) assms(6) Append(1)] assms(7)
    have "(n, i) \<in> set (visits (trace s))" by (auto simp: inv_log_def)
    with v assms(7) False have "n \<noteq> normalizeURL (baseURL s)"
      using unique_owner [of "visits (trace s)" n i 0] by (auto simp: inv_log_def)
    with d show ?thesis by simp
  qed
  with Append assms(2) show ?thesis
    by (auto simp: inv_seed_depth_def upd_defs)
qed (use assms(2) in \<open>auto simp: inv_seed_depth_def upd_defs\<close>)

subsection \<open>The semaphore channel\<close>

lemma filter_upd_length:
  "i < length xs \<Longrightarrow>
     length (filter P (xs[i := x])) + (if P (xs ! i) then 1 else 0) =
     length (filter P xs) + (if P x then 1 else 0)"
proof (induction xs arbitrary: i)
  case Nil
  then show ?case by simp
next
  case (Cons a xs)
  show ?case
  proof (cases i)
    case 0
    then show ?thesis by simp
  next
    case (Suc k)
    with Cons.prems have "k < length xs" by simp
    from Cons.IH [OF this] Suc show ?thesis by simp
  qed
qed

lemma holders_upd:
  "i < length ts \<Longrightarrow>
     holders (ts[i := x]) + (if holds (t_pc (ts ! i)) then 1 else 0) =
     holders ts + (if holds (t_pc x) then 1 else 0)"
  unfolding holders_def by (rule filter_upd_length)

lemma holders_upd_same:
  assumes "holds (t_pc x) = holds (t_pc (ts ! i))"
  shows "holders (ts[i := x]) = holders ts"
proof (cases "i < length ts")
  case True
  from holders_upd [OF True, of x] assms show ?thesis by (simp split: if_splits)
next
  case False
  then show ?thesis by (simp add: list_update_beyond)
qed

lemma holders_upd_eq:
  "i < length ts \<Longrightarrow>
     holders (ts[i := x]) =
     (holders ts + (if holds (t_pc x) then 1 else 0)) - (if holds (t_pc (ts ! i)) then 1 else 0)"
  using holders_upd [of i ts x] by (simp split: if_splits)

lemma holders_snoc: "holders (ts @ [x]) = holders ts + (if holds (t_pc x) then 1 else 0)"
  by (simp add: holders_def)

lemma in_flight_le_holders: "in_flight ts \<le> holders ts"
proof (induction ts)
  case Nil
  show ?case by (simp add: in_flight_def holders_def)
next
  case (Cons t ts)
  then show ?case by (cases "t_pc t") (simp_all add: in_flight_def holders_def)
qed

lemma inv_sem_start: "inv_sem (start (New b m t dl) d)"
  by (simp add: inv_sem_def start_def New_def holders_def)

lemma inv_sem_step:
  assumes "step env i s = Some s'" "inv_sem s"
  shows "inv_sem s'"
proof -
  from assms(2) have sem: "semaphore s = holders (tasks s)" and cap: "semaphore s \<le> semaphore_cap"
    by (simp_all add: inv_sem_def)
  from assms(1) show ?thesis
  proof (cases rule: step_cases)
    case (LinksSpawn n a as u)
    have "holders (tasks s') = holders (tasks s)"
      unfolding LinksSpawn(4)
      by (simp add: upd_defs holders_snoc holders_upd_same LinksSpawn(2) nth_append LinksSpawn(1))
    with sem cap LinksSpawn show ?thesis by (simp add: inv_sem_def upd_defs)
  next
    case (RetChild e p)
    have "holders (tasks s') = holders (tasks s)"
      unfolding RetChild(4)
      by (simp add: upd_defs holders_upd_same RetChild(2) nth_upd)
    with sem cap RetChild show ?thesis by (simp add: inv_sem_def upd_defs)
  qed (use sem cap in \<open>simp_all add: inv_sem_def upd_defs holders_upd_eq\<close>)
qed

lemma inv_pair_start: "inv_pair (start (New b m t dl) d)"
  by (simp add: inv_pair_def start_def New_def slot_ok_def)

lemma inv_pair_step:
  assumes "step env i s = Some s'" "inv_pair s"
  shows "inv_pair s'"
proof -
  have old: "slot_ok (trace s) j (t_pc (tasks s ! j))" if "j < length (tasks s)" for j
    using assms(2) that unfolding inv_pair_def by (auto split: if_splits)
  have none: "count_list (trace s) (EvAcquire j) = 0 \<and> count_list (trace s) (EvRelease j) = 0"
    if "\<not> j < length (tasks s)" for j
    using assms(2) that unfolding inv_pair_def by (auto split: if_splits)
  have i: "i < length (tasks s)" using step_len [OF assms(1)] by simp
  note own = old [OF i]
  show ?thesis
    unfolding inv_pair_def
  proof
    fix j
    consider (new) "\<not> j < length (tasks s)" | (self) "j = i" | (other) "j < length (tasks s)" "j \<noteq> i"
      by blast
    then show "if j < length (tasks s') then slot_ok (trace s') j (t_pc (tasks s' ! j))
          else count_list (trace s') (EvAcquire j) = 0 \<and> count_list (trace s') (EvRelease j) = 0"
    proof cases
      case new
      with i have ji: "j \<noteq> i" by auto
      from assms(1) none [OF new] new ji show ?thesis
        by (cases rule: step_cases) (auto simp: upd_defs slot_ok_def nth_append)
    next
      case self
      from assms(1) own show ?thesis
        unfolding self
        by (cases rule: step_cases) (auto simp: upd_defs slot_ok_def nth_append nth_upd)
    next
      case other
      from assms(1) old [OF other(1)] other show ?thesis
        by (cases rule: step_cases) (auto simp: upd_defs slot_ok_def nth_append nth_upd)
    qed
  qed
qed

subsection \<open>WaitGroups\<close>

lemma pending_upd:
  "j < length ts \<Longrightarrow>
     pending i (ts[j := x]) + (if child_of i (ts ! j) then 1 else 0) =
     pending i ts + (if child_of i x then 1 else 0)"
  unfolding pending_def by (rule filter_upd_length)

lemma pending_upd_same:
  assumes "child_of i x = child_of i (ts ! j)"
  shows "pending i (ts[j := x]) = pending i ts"
proof (cases "j < length ts")
  case True
  from pending_upd [OF True, of i x] assms show ?thesis by (simp split: if_splits)
next
  case False
  then show ?thesis by (simp add: list_update_beyond)
qed

lemma pending_snoc: "pending i (ts @ [x]) = pending i ts + (if child_of i x then 1 else 0)"
  by (simp add: pending_def)

lemma pending_done:
  assumes "j < length ts" "t_parent (ts ! j) = Some p" "\<not> is_done (t_pc (ts ! j))"
  shows "pending i (ts[j := (ts ! j)\<lparr>t_pc := PDone e\<rparr>]) + (if i = p then 1 else 0) = pending i ts"
  using pending_upd [OF assms(1), of i "(ts ! j)\<lparr>t_pc := PDone e\<rparr>"] assms(2,3)
  by (simp add: child_of_def split: if_splits)

lemma inv_wg_start: "inv_wg (start (New b m t dl) d)"
  by (simp add: inv_wg_def start_def New_def pending_def child_of_def)

lemma inv_wgD:
  assumes "inv_wg s"
  shows "i < length (tasks s) \<Longrightarrow> t_wg (tasks s ! i) = int (pending i (tasks s))"
    and "i < length (tasks s) \<Longrightarrow> \<not> spawning (t_pc (tasks s ! i)) \<Longrightarrow> pending i (tasks s) = 0"
    and "\<not> i < length (tasks s) \<Longrightarrow> pending i (tasks s) = 0"
  using assms unfolding inv_wg_def by (metis (full_types))+

lemma inv_wgI:
  assumes "\<And>i. i < length (tasks s) \<Longrightarrow> t_wg (tasks s ! i) = int (pending i (tasks s))"
    and "\<And>i. i < length (tasks s) \<Longrightarrow> \<not> spawning (t_pc (tasks s ! i)) \<Longrightarrow> pending i (tasks s) = 0"
    and "\<And>i. \<not> i < length (tasks s) \<Longrightarrow> pending i (tasks s) = 0"
  shows "inv_wg s"
  unfolding inv_wg_def using assms by simp

lemma inv_wg_move:
  assumes "inv_wg s" "a < length (tasks s)"
    and "\<And>k. child_of k ((tasks s ! a)\<lparr>t_pc := p\<rparr>) = child_of k (tasks s ! a)"
    and "tasks s' = (tasks s)[a := (tasks s ! a)\<lparr>t_pc := p\<rparr>]"
    and "\<not> spawning p \<Longrightarrow> pending a (tasks s) = 0"
  shows "inv_wg s'"
proof -
  have pend: "pending i (tasks s') = pending i (tasks s)" for i
    unfolding assms(4) using assms(3) by (intro pending_upd_same)
  have len: "length (tasks s') = length (tasks s)" by (simp add: assms(4))
  show ?thesis
  proof (rule inv_wgI)
    fix i assume i: "i < length (tasks s')"
    then have i': "i < length (tasks s)" by (simp add: len)
    show "t_wg (tasks s' ! i) = int (pending i (tasks s'))"
      using inv_wgD(1) [OF assms(1) i'] pend [of i] i' by (simp add: assms(4) nth_upd)
    assume ns: "\<not> spawning (t_pc (tasks s' ! i))"
    show "pending i (tasks s') = 0"
    proof (cases "i = a")
      case True
      with ns assms(2,5) pend [of a] show ?thesis by (simp add: assms(4))
    next
      case False
      with ns inv_wgD(2) [OF assms(1) i'] pend [of i] i' show ?thesis
        by (simp add: assms(4) nth_upd)
    qed
  next
    fix i assume "\<not> i < length (tasks s')"
    with inv_wgD(3) [OF assms(1), of i] pend [of i] len show "pending i (tasks s') = 0" by simp
  qed
qed

lemma pending_pos:
  assumes "j < length ts" "child_of i (ts ! j)"
  shows "0 < pending i ts"
proof -
  from assms have "ts ! j \<in> set (filter (child_of i) ts)" by simp
  then have "filter (child_of i) ts \<noteq> []" by fastforce
  then show ?thesis by (simp add: pending_def)
qed

lemma inv_wg_step:
  assumes "step env i s = Some s'" "inv_wg s" "inv_tree s"
  shows "inv_wg s'"
proof -
  note D = inv_wgD [OF assms(2)]
  have i: "i < length (tasks s)" using step_len [OF assms(1)] by simp
  have idle: "pending i (tasks s) = 0" if "\<not> spawning (t_pc (tasks s ! i))"
    using D(2) [OF i that] .
  have keep: "child_of k ((tasks s ! i)\<lparr>t_pc := p\<rparr>) = child_of k (tasks s ! i)"
    if "\<not> is_done p" "\<not> is_done (t_pc (tasks s ! i))" for k p
    using that by (simp add: child_of_def)
  have move: "inv_wg s'"
    if "tasks s' = (tasks s)[i := (tasks s ! i)\<lparr>t_pc := p\<rparr>]" "\<not> is_done p"
      "\<not> is_done (t_pc (tasks s ! i))" "spawning p \<or> \<not> spawning (t_pc (tasks s ! i))" for p
    using inv_wg_move [OF assms(2) i keep [OF that(2,3)] that(1)] idle that(4) by blast
  from assms(1) show ?thesis
  proof (cases rule: step_cases)
    case (LinksSpawn n a as u)
    let ?c = "\<lparr>t_url = u, t_depth = t_depth (tasks s ! i) + 1, t_domain = t_domain (tasks s ! i),
      t_parent = Some i, t_wg = 0, t_pc = PEntry\<rparr>"
    let ?t = "(tasks s ! i)\<lparr>t_wg := t_wg (tasks s ! i) + 1, t_pc := PLinks n as\<rparr>"
    have ts: "tasks s' = (tasks s)[i := ?t] @ [?c]"
      unfolding LinksSpawn(4) using i by (simp add: upd_defs nth_append list_update_append)
    have same: "child_of k ?t = child_of k (tasks s ! i)" for k
      using LinksSpawn(2) by (simp add: child_of_def)
    have pend: "pending k (tasks s') = pending k (tasks s) + (if k = i then 1 else 0)" for k
      unfolding ts by (simp add: pending_snoc pending_upd_same [OF same] child_of_def)
    show ?thesis
    proof (rule inv_wgI)
      fix k assume k: "k < length (tasks s')"
      show "t_wg (tasks s' ! k) = int (pending k (tasks s'))"
      proof (cases "k < length (tasks s)")
        case True
        with D(1) [OF True] pend [of k] show ?thesis
          by (simp add: ts nth_append nth_upd)
      next
        case False
        with k have "k = length (tasks s)" by (simp add: ts)
        with D(3) [OF False] pend [of k] i show ?thesis
          by (simp add: ts nth_append)
      qed
      assume ns: "\<not> spawning (t_pc (tasks s' ! k))"
      show "pending k (tasks s') = 0"
      proof (cases "k < length (tasks s)")
        case True
        with ns have "k \<noteq> i" by (auto simp: ts nth_append nth_upd)
        with ns True D(2) [OF True] pend [of k] show ?thesis
          by (simp add: ts nth_append nth_upd)
      next
        case False
        with D(3) [OF False] pend [of k] i show ?thesis by auto
      qed
    next
      fix k assume "\<not> k < length (tasks s')"
      then have "\<not> k < length (tasks s)" "k \<noteq> i" using i by (auto simp: ts)
      with D(3) [of k] pend [of k] show "pending k (tasks s') = 0" by simp
    qed
  next
    case (RetChild e p)
    from inv_tree_root [OF assms(3)] RetChild(3) have i0: "0 < i" by (cases i) auto
    from inv_tree_child [OF assms(3) i i0] RetChild(3) have pi: "p < i" by auto
    let ?ts = "(tasks s)[i := (tasks s ! i)\<lparr>t_pc := PDone e\<rparr>]"
    let ?t = "(tasks s ! p)\<lparr>t_wg := t_wg (tasks s ! p) - 1\<rparr>"
    have ts: "tasks s' = ?ts[p := ?t]"
      unfolding RetChild(4) using pi i by (simp add: upd_defs nth_upd)
    have same: "child_of k ?t = child_of k (?ts ! p)" for k
      using pi i by (simp add: child_of_def nth_upd)
    have pend: "pending k (tasks s') + (if k = p then 1 else 0) = pending k (tasks s)" for k
      unfolding ts pending_upd_same [OF same]
      using pending_done [where e = e and i = k, OF i RetChild(3)] RetChild(2) by simp
    have len: "length (tasks s') = length (tasks s)" by (simp add: ts)
    show ?thesis
    proof (rule inv_wgI)
      fix k assume "k < length (tasks s')"
      then have k: "k < length (tasks s)" by (simp add: len)
      show "t_wg (tasks s' ! k) = int (pending k (tasks s'))"
        using D(1) [OF k] pend [of k] k pi i by (auto simp: ts nth_upd)
      assume ns: "\<not> spawning (t_pc (tasks s' ! k))"
      show "pending k (tasks s') = 0"
      proof (cases "k = i")
        case True
        with idle RetChild(2) pend [of i] pi show ?thesis by simp
      next
        case False
        with ns k pi have "\<not> spawning (t_pc (tasks s ! k))" by (auto simp: ts nth_upd split: if_splits)
        from D(2) [OF k this] pend [of k] show ?thesis by simp
      qed
    next
      fix k assume "\<not> k < length (tasks s')"
      with D(3) [of k] pend [of k] len show "pending k (tasks s') = 0" by simp
    qed
  next
    case (RetRoot e)
    have "child_of k ((tasks s ! i)\<lparr>t_pc := PDone e\<rparr>) = child_of k (tasks s ! i)" for k
      using RetRoot(3) by (simp add: child_of_def)
    from inv_wg_move [OF assms(2) i this, of s'] RetRoot idle show ?thesis
      by (simp add: upd_defs)
  next
    case Wait
    from D(1) [OF i] Wait(3) have "pending i (tasks s) = 0" by simp
    with inv_wg_move [OF assms(2) i keep, of "PRelease None" s'] Wait show ?thesis
      by (simp add: upd_defs)
  next
    case EntryDeep
    then show ?thesis by (intro move [of "PRet None"]) (simp_all add: upd_defs)
  next
    case Entry
    then show ?thesis
      by (intro move [of "PLock (normalizeURL (t_url (tasks s ! i)))"]) (simp_all add: upd_defs)
  next
    case (LockSeen n)
    then show ?thesis by (intro move [of "PRet None"]) (simp_all add: upd_defs)
  next
    case (LockNew n)
    then show ?thesis by (intro move [of "PAcquire n"]) (simp_all add: upd_defs)
  next
    case (Acquire n)
    then show ?thesis by (intro move [of "PFetch n"]) (simp_all add: upd_defs)
  next
    case (FetchErr n e)
    then show ?thesis by (intro move [of "PRelease (Some e)"]) (simp_all add: upd_defs)
  next
    case (FetchOk n d)
    then show ?thesis by (intro move [of "PAppend n d"]) (simp_all add: upd_defs)
  next
    case (Append n d)
    then show ?thesis by (intro move [of "PLinks n (doc_anchors d)"]) (simp_all add: upd_defs)
  next
    case (LinksNil n)
    then show ?thesis by (intro move [of PWait]) (simp_all add: upd_defs)
  next
    case (LinksSkip n a as)
    then show ?thesis by (intro move [of "PLinks n as"]) (simp_all add: upd_defs)
  next
    case (Release e)
    then show ?thesis by (intro move [of "PRet e"]) (simp_all add: upd_defs)
  qed
qed

lemma all_done:
  assumes "inv_wg s" "inv_tree s" "is_done (t_pc (tasks s ! 0))"
  shows "j < length (tasks s) \<Longrightarrow> is_done (t_pc (tasks s ! j))"
proof (induction j rule: less_induct)
  case (less j)
  show ?case
  proof (cases "j = 0")
    case True
    with assms(3) show ?thesis by simp
  next
    case False
    with inv_tree_child [OF assms(2) less.prems] obtain p where p: "p < j"
      and par: "t_parent (tasks s ! j) = Some p" by auto
    from p less.prems have pl: "p < length (tasks s)" by simp
    from less.IH [OF p pl] have "\<not> spawning (t_pc (tasks s ! p))"
      by (cases "t_pc (tasks s ! p)") simp_all
    from inv_wgD(2) [OF assms(1) pl this] have zero: "pending p (tasks s) = 0" .
    show ?thesis
    proof (rule ccontr)
      assume "\<not> is_done (t_pc (tasks s ! j))"
      with par have "child_of p (tasks s ! j)" by (simp add: child_of_def)
      from pending_pos [OF less.prems this] zero show False by simp
    qed
  qed
qed

lemma holders_zero:
  assumes "\<And>j. j < length ts \<Longrightarrow> is_done (t_pc (ts ! j))"
  shows "holders ts = 0"
proof -
  have "\<not> holds (t_pc t)" if "t \<in> set ts" for t
  proof -
    from that obtain j where "j < length ts" "ts ! j = t" by (auto simp: in_set_conv_nth)
    with assms [of j] show ?thesis by (cases "t_pc t") auto
  qed
  then have "filter (\<lambda>t. holds (t_pc t)) ts = []" by (simp add: filter_empty_conv)
  then show ?thesis by (simp add: holders_def)
qed

subsection \<open>The domain filter\<close>

lemma link_target_host:
  "link_target env n d a = Some u \<Longrightarrow> hostname_of env u = Some d"
  by (auto simp: link_target_def hostname_of_def split: option.splits if_splits)

lemma inv_domain_step:
  assumes "step env i s = Some s'" "inv_domain env d s" "inv_norm s" "fragment_blind env"
  shows "inv_domain env d s'"
proof -
  have i: "i < length (tasks s)" using step_len [OF assms(1)] by simp
  from assms(2) i have own: "hostname_of env (t_url (tasks s ! i)) = Some d"
    "t_domain (tasks s ! i) = d"
    by (simp_all add: inv_domain_def)
  from own(1) assms(4) have norm: "hostname_of env (normalizeURL (t_url (tasks s ! i))) = Some d"
    by (simp add: fragment_blind_def)
  from assms(1) show ?thesis
  proof (cases rule: step_cases)
    case (Append n dc)
    from inv_norm_url [OF _ assms(3) i] Append(2) have "n = normalizeURL (t_url (tasks s ! i))"
      by simp
    with Append norm assms(2) show ?thesis
      by (auto simp: inv_domain_def upd_defs nth_upd)
  next
    case (LinksSpawn n a as u)
    from link_target_host [OF LinksSpawn(3)] own(2) have "hostname_of env u = Some d" by simp
    with LinksSpawn own assms(2) show ?thesis
      by (auto simp: inv_domain_def upd_defs nth_upd nth_append)
  qed (use assms(2) in \<open>auto simp: inv_domain_def upd_defs nth_upd\<close>)
qed

subsection \<open>Stuck states and the delay field\<close>

lemma stuck_step: "stuck env s \<Longrightarrow> step env i s = None"
  by (cases "i < length (tasks s)") (auto simp: stuck_def list_all_iff step_def)

lemma stuck_run: "stuck env s \<Longrightarrow> run env sched s = s"
  by (induction sched) (simp_all add: stuck_step)

lemma crawlPage_delay:
  "crawlPage env i t p (s\<lparr>delay := d\<rparr>) = map_option (\<lambda>s'. s'\<lparr>delay := d\<rparr>) (crawlPage env i t p s)"
  by (induction env i t p s rule: crawlPage.induct)
     (auto simp: upd_defs split: sum.splits option.splits)

lemma step_delay:
  "step env i (s\<lparr>delay := d\<rparr>) = map_option (\<lambda>s'. s'\<lparr>delay := d\<rparr>) (step env i s)"
  by (simp add: step_def crawlPage_delay)

lemma run_delay: "run env sched (s\<lparr>delay := d\<rparr>) = (run env sched s)\<lparr>delay := d\<rparr>"
proof (induction sched arbitrary: s)
  case Nil
  show ?case by simp
next
  case (Cons i sched)
  show ?case
    by (cases "step env i s") (simp_all add: step_delay Cons)
qed

subsection \<open>Reachable states\<close>

lemma inv_start: "inv env (start (New b m t dl) d)"
  unfolding inv_def
  by (intro conjI inv_tree_start inv_web_start inv_seed_start inv_root_page_start
      inv_seed_depth_start inv_sem_start inv_pair_start inv_wg_start)
     (simp_all add: inv_depth_def inv_norm_def inv_log_def inv_owner_def start_def New_def)

lemma inv_step:
  assumes "step env i s = Some s'" "inv env s"
  shows "inv env s'"
proof -
  from assms(2) have a: "inv_tree s" "inv_depth s" "inv_norm s" "inv_log s" "inv_owner s"
    "inv_web env s" "inv_seed s" "inv_root_page env s" "inv_seed_depth s" "inv_sem s"
    "inv_pair s" "inv_wg s"
    by (simp_all add: inv_def)
  note s = assms(1)
  show ?thesis
    unfolding inv_def
    by (intro conjI inv_tree_step [OF s] inv_depth_step [OF s] inv_norm_step [OF s]
        inv_log_step [OF s] inv_owner_step [OF s] inv_web_step [OF s] inv_seed_step [OF s]
        inv_root_page_step [OF s] inv_seed_depth_step [OF s] inv_sem_step [OF s]
        inv_pair_step [OF s] inv_wg_step [OF s] a)
qed

lemma inv_run: "inv env (run env sched (start (New b m t dl) d))"
  by (rule run_invariant [where P = "inv env", OF inv_start inv_step])

lemma run_config:
  "baseURL (run env sched s) = baseURL s \<and> maxDepth (run env sched s) = maxDepth s \<and>
   timeout (run env sched s) = timeout s \<and> delay (run env sched s) = delay s"
proof (induction sched arbitrary: s)
  case Nil
  show ?case by simp
next
  case (Cons i sched)
  show ?case
  proof (cases "step env i s")
    case None
    with Cons show ?thesis by simp
  next
    case (Some s')
    with Cons [of s'] step_config [OF Some] show ?thesis by simp
  qed
qed

lemma Crawl_state_inv:
  assumes "Crawl_state env (New b m t dl) sched = Some s"
  shows "inv env s \<and> baseURL s = b \<and> maxDepth s = m"
proof -
  from assms obtain u where s: "s = run env sched (start (New b m t dl) (url_Hostname env u))"
    by (auto simp: Crawl_state_def split: option.splits)
  show ?thesis
    unfolding s using inv_run [of env sched b m t dl] run_config [of env sched]
    by (simp add: start_def New_def)
qed

lemma one_key:
  assumes "distinct (map f xs)" "\<forall>x\<in>set xs. f x = k" "y \<in> set xs"
  shows "xs = [y]"
proof (cases xs)
  case Nil
  with assms(3) show ?thesis by simp
next
  case (Cons a as)
  from assms(1,2) Cons have "as = []"
    by (cases as) auto
  with Cons assms(3) show ?thesis by simp
qed

lemma holders_pos:
  assumes "j < length ts" "holds (t_pc (ts ! j))"
  shows "0 < holders ts"
proof -
  from assms have "ts ! j \<in> set (filter (\<lambda>t. holds (t_pc t)) ts)" by simp
  then have "filter (\<lambda>t. holds (t_pc t)) ts \<noteq> []" by fastforce
  then show ?thesis by (simp add: holders_def)
qed

text \<open>
  The two operations that could fail in Go never do: the deferred receive finds an
  element in the channel, and no WaitGroup counter becomes negative.
\<close>

lemma release_never_blocks:
  assumes "Crawl_state env (New b m t dl) sched = Some s" "j < length (tasks s)"
    "t_pc (tasks s ! j) = PRelease e"
  shows "step env j s \<noteq> None"
proof -
  from Crawl_state_inv [OF assms(1)] have "inv_sem s" by (simp add: inv_def)
  with holders_pos [OF assms(2)] assms(3) have "semaphore s \<noteq> 0"
    by (simp add: inv_sem_def)
  with assms(2,3) show ?thesis by (simp add: step_def)
qed

lemma wg_never_negative:
  assumes "Crawl_state env (New b m t dl) sched = Some s" "j < length (tasks s)"
  shows "0 \<le> t_wg (tasks s ! j)"
proof -
  from Crawl_state_inv [OF assms(1)] have "inv_wg s" by (simp add: inv_def)
  from inv_wgD(1) [OF this assms(2)] show ?thesis by simp
qed

subsection \<open>Results of Crawl\<close>

lemma Crawl_Inr:
  assumes "Crawl_state env c sched = Some s" "Crawl env c sched = Some (Inr ps)"
  shows "ps = pages s \<and> returned s = Some None"
  using assms by (auto simp: Crawl_def split: option.splits)

lemma returned_pc: "returned s = Some e \<Longrightarrow> t_pc (tasks s ! 0) = PDone e"
  by (auto simp: returned_def split: list.splits pc.splits)

lemma run_append: "run env (xs @ ys) s = run env ys (run env xs s)"
  by (induction xs arbitrary: s) simp_all

lemma Crawl_state_append:
  "Crawl_state env c sched = Some s \<Longrightarrow> Crawl_state env c (sched @ rest) = Some (run env rest s)"
  by (auto simp: Crawl_state_def run_append split: option.splits)

lemma step_visited_mono:
  assumes "step env i s = Some s'" "lookup (visited s) n"
  shows "lookup (visited s') n"
  using assms by (cases rule: step_cases) (auto simp: upd_defs)

lemma run_visited_mono: "lookup (visited s) n \<Longrightarrow> lookup (visited (run env sched s)) n"
  by (rule run_invariant [where P = "\<lambda>s. lookup (visited s) n"]) (auto intro: step_visited_mono)

lemma done_stuck:
  assumes "\<And>j. j < length (tasks s) \<Longrightarrow> is_done (t_pc (tasks s ! j))"
  shows "step env i s = None"
proof (cases "i < length (tasks s)")
  case True
  from assms [OF True] show ?thesis
    by (cases "t_pc (tasks s ! i)") (simp_all add: step_def True)
next
  case False
  then show ?thesis by (simp add: step_def)
qed

lemma done_run:
  assumes "\<And>j. j < length (tasks s) \<Longrightarrow> is_done (t_pc (tasks s ! j))"
  shows "run env sched s = s"
  by (induction sched) (simp_all add: done_stuck [OF assms])

lemma takeWhile_take_stop:
  "i < length r \<Longrightarrow> \<not> P (r ! i) \<Longrightarrow> takeWhile P (take i r) = takeWhile P r"
proof (induction r arbitrary: i)
  case Nil
  then show ?case by simp
next
  case (Cons x xs)
  then show ?case by (cases i) auto
qed

lemma normalizeURL_cut:
  "normalizeURL u = u \<or> (\<exists>i. i < length u \<and> u ! i = CHR ''#'' \<and> normalizeURL u = take i u)"
  by (auto simp: normalizeURL_def split: option.splits dest: strings_Index_Some)

lemma inv_domain_run:
  assumes "fragment_blind env" "Crawl_state env (New b m t dl) sched = Some s"
  shows "\<exists>d. hostname_of env b = Some d \<and> inv_domain env d s"
proof -
  from assms(2) obtain u where u: "url_Parse env b = Some u"
    and s: "s = run env sched (start (New b m t dl) (url_Hostname env u))"
    by (auto simp: Crawl_state_def New_def split: option.splits)
  let ?d = "url_Hostname env u"
  let ?P = "\<lambda>s. inv_domain env ?d s \<and> inv_norm s"
  have h: "hostname_of env b = Some ?d" using u by (simp add: hostname_of_def)
  have "?P (start (New b m t dl) ?d)"
    using h by (simp add: inv_domain_def inv_norm_def start_def New_def)
  then have "?P (run env sched (start (New b m t dl) ?d))"
    by (rule run_invariant) (auto intro: inv_domain_step inv_norm_step assms(1))
  with h s show ?thesis by blast
qed

lemma New_delay: "New b m t dl = (New b m t 0)\<lparr>delay := dl\<rparr>"
  by (simp add: New_def)

lemma start_delay: "start (c\<lparr>delay := d\<rparr>) h = (start c h)\<lparr>delay := d\<rparr>"
  by (simp add: start_def)

lemma returned_delay: "returned (s\<lparr>delay := d\<rparr>) = returned s"
  by (simp add: returned_def)

text \<open>
  When the visit of the seed page fails, the first call is alone and nothing can block
  it: after any schedule, six turns bring it to its return with the error.
\<close>

lemma seed_failing_start:
  "0 \<le> m \<Longrightarrow> seed_failing (normalizeURL b) e 6 (start (New b m t dl) h)"
  by (simp add: seed_failing_def start_def New_def)

lemma seed_failing_move:
  assumes "fetch_outcome (http_Get env n) = Inl e" "seed_failing n e (Suc k) s"
  shows "\<exists>s'. step env 0 s = Some s' \<and> seed_failing n e k s'"
proof (cases "t_pc (tasks s ! 0)")
  case PEntry
  with assms show ?thesis
    by (auto simp: seed_failing_def step_def upd_defs)
next
  case (PLock x)
  with assms show ?thesis
    by (auto simp: seed_failing_def step_def upd_defs split: if_splits)
next
  case (PAcquire x)
  with assms show ?thesis
    by (auto simp: seed_failing_def step_def upd_defs semaphore_cap_def split: if_splits)
next
  case (PFetch x)
  with assms show ?thesis
    by (auto simp: seed_failing_def step_def upd_defs split: if_splits)
next
  case (PRelease x)
  with assms show ?thesis
    by (auto simp: seed_failing_def step_def upd_defs split: if_splits)
next
  case (PRet x)
  with assms show ?thesis
    by (auto simp: seed_failing_def step_def upd_defs split: if_splits)
qed (use assms(2) in \<open>auto simp: seed_failing_def split: if_splits\<close>)

lemma seed_failing_end:
  assumes "seed_failing n e 0 s"
  shows "step env i s = None \<and> returned s = Some (Some e)"
proof -
  from assms have l: "length (tasks s) = 1"
    and p: "seed_path n e (t_pc (tasks s ! 0)) = Some 0"
    by (simp_all add: seed_failing_def)
  from p have pc: "t_pc (tasks s ! 0) = PDone (Some e)"
    by (cases "t_pc (tasks s ! 0)") (simp_all split: if_splits)
  from l obtain t0 where ts: "tasks s = [t0]" by (cases "tasks s") auto
  with pc show ?thesis
    by (cases i) (simp_all add: step_def returned_def)
qed

lemma seed_failing_step:
  assumes "fetch_outcome (http_Get env n) = Inl e" "seed_failing n e k s" "step env i s = Some s'"
  shows "\<exists>k'. seed_failing n e k' s'"
proof -
  from assms(2) have "length (tasks s) = 1" by (simp add: seed_failing_def)
  with assms(3) have i: "i = 0" by (simp add: step_def split: if_splits)
  show ?thesis
  proof (cases k)
    case 0
    with seed_failing_end [of n e s env i] assms(2,3) show ?thesis by simp
  next
    case (Suc j)
    with seed_failing_move [OF assms(1), of j s] assms(2,3) i show ?thesis by auto
  qed
qed

lemma seed_failing_run:
  assumes "fetch_outcome (http_Get env n) = Inl e"
  shows "seed_failing n e k s \<Longrightarrow> k \<le> j \<Longrightarrow> seed_failing n e 0 (run env (replicate j 0) s)"
proof (induction j arbitrary: k s)
  case 0
  then show ?case by simp
next
  case (Suc j)
  show ?case
  proof (cases k)
    case 0
    with seed_failing_end [of n e s env 0] Suc.prems(1) Suc.IH [of 0 s] show ?thesis by simp
  next
    case (Suc k')
    with seed_failing_move [OF assms, of k' s] Suc.prems obtain s'
      where "step env 0 s = Some s'" "seed_failing n e k' s'" by auto
    with Suc.IH [of k' s'] Suc.prems(2) \<open>k = Suc k'\<close> show ?thesis by simp
  qed
qed

lemma six: "[0, 0, 0, 0, 0, 0] = replicate 6 (0::nat)"
  by (simp add: numeral_eq_Suc)

lemma seed_failure_returns:
  assumes "url_Parse env b = Some u" "0 \<le> m"
    "fetch_outcome (http_Get env (normalizeURL b)) = Inl e"
  shows "Crawl env (New b m t dl) (sched @ [0, 0, 0, 0, 0, 0]) = Some (Inl e)"
proof -
  let ?s0 = "start (New b m t dl) (url_Hostname env u)"
  have "\<exists>k. seed_failing (normalizeURL b) e k (run env sched ?s0)"
    by (rule run_invariant [where P = "\<lambda>s. \<exists>k. seed_failing (normalizeURL b) e k s"])
       (use seed_failing_start [OF assms(2)] seed_failing_step [OF assms(3)] in blast)+
  then obtain k where k: "seed_failing (normalizeURL b) e k (run env sched ?s0)" by blast
  have "k \<le> 6"
    using k by (cases "t_pc (tasks (run env sched ?s0) ! 0)")
      (auto simp: seed_failing_def split: if_splits)
  from seed_failing_run [OF assms(3) k this]
  have "seed_failing (normalizeURL b) e 0 (run env (sched @ [0, 0, 0, 0, 0, 0]) ?s0)"
    by (simp add: run_append six)
  from seed_failing_end [OF this, of env 0] assms(1) show ?thesis
    by (simp add: Crawl_def Crawl_state_def New_def)
qed

text \<open>
  What a returned \<open>Crawl\<close> returns: the error of the seed, or the page list.
\<close>

lemma crawl_result_cases:
  assumes "Crawl env (New b m t dl) sched = Some r"
  shows "(\<forall>e. r = Inl e \<longleftrightarrow>
            url_Parse env b = None \<and> e = InvalidSeedURL \<or>
            url_Parse env b \<noteq> None \<and> 0 \<le> m \<and>
              fetch_outcome (http_Get env (normalizeURL b)) = Inl e) \<and>
         (\<forall>ps s. r = Inr ps \<and> Crawl_state env (New b m t dl) sched = Some s \<longrightarrow> ps = pages s)"
proof (cases "url_Parse env b")
  case None
  with assms have "r = Inl InvalidSeedURL"
    by (simp add: Crawl_def Crawl_state_def New_def)
  with None show ?thesis by auto
next
  case (Some u)
  then obtain s where s: "Crawl_state env (New b m t dl) sched = Some s"
    by (simp add: Crawl_state_def New_def)
  from Crawl_state_inv [OF s] have i: "inv env s" and b: "baseURL s = b" and m: "maxDepth s = m"
    by simp_all
  from i have tr: "inv_tree s" and dep: "inv_depth s" and w: "inv_web env s" and se: "inv_seed s"
    and rp: "inv_root_page env s"
    by (simp_all add: inv_def)
  note root = inv_tree_root [OF tr]
  from assms s obtain eo where ret: "returned s = Some eo"
    and r: "r = (case eo of None \<Rightarrow> Inr (pages s) | Some e \<Rightarrow> Inl e)"
    by (auto simp: Crawl_def split: option.splits)
  note pc = returned_pc [OF ret]
  have first: "r = Inl e \<longleftrightarrow>
      url_Parse env b = None \<and> e = InvalidSeedURL \<or>
      url_Parse env b \<noteq> None \<and> 0 \<le> m \<and>
        fetch_outcome (http_Get env (normalizeURL b)) = Inl e" for e
  proof (cases eo)
    case None
    have no: "\<not> (0 \<le> m \<and> fetch_outcome (http_Get env (normalizeURL b)) = Inl e)"
    proof
      assume a: "0 \<le> m \<and> fetch_outcome (http_Get env (normalizeURL b)) = Inl e"
      with se pc None m b have "(normalizeURL b, 0) \<in> set (visits (trace s))"
        by (auto simp: inv_seed_def)
      with rp pc None b have "\<exists>d. fetch_outcome (http_Get env (normalizeURL b)) = Inr d"
        by (auto simp: inv_root_page_def)
      with a show False by auto
    qed
    from None r Some no show ?thesis by auto
  next
    case (Some e')
    from inv_web_err [OF _ w, of 0 e'] pc Some root b
    have out: "fetch_outcome (http_Get env (normalizeURL b)) = Inl e'" by simp
    from dep pc Some root m have "0 \<le> m"
      by (auto simp: inv_depth_def)
    with out r Some \<open>url_Parse env b = Some u\<close> show ?thesis by auto
  qed
  have second: "ps = pages s'" if "r = Inr ps" "Crawl_state env (New b m t dl) sched = Some s'"
    for ps s'
    using that r s by (cases eo) auto
  from first second show ?thesis by blast
qed

subsection \<open>Concrete runs\<close>

text \<open>
  The crawls of the small web, evaluated: the state reached, its pages, its trace and the
  program counters of its tasks.
\<close>

lemma site_state: "Crawl_state site_env site_crawler site_sched = Some site_final"
  by (simp add: Crawl_state_def site_final_def site_env_def stub_lib_def stub_host_def
      site_crawler_def New_def)

lemma site_crawler_New: "site_crawler = New ''x/'' 2 30 2000000000"
  by (simp add: site_crawler_def)

lemma site_pages:
  "pages site_final =
     [\<lparr>URL = ''x/'', Title = ''Home'', Content = ''h'', Depth = 0\<rparr>,
      \<lparr>URL = ''x/a'', Title = ''A'', Content = ''a'', Depth = 1\<rparr>,
      \<lparr>URL = ''x/b'', Title = ''B'', Content = ''b'', Depth = 1\<rparr>,
      \<lparr>URL = ''x/c'', Title = ''C'', Content = ''c'', Depth = 2\<rparr>]"
  by code_simp

lemma site_trace:
  "trace site_final =
     [EvRelease 0, EvRelease 2, EvRelease 1, EvRelease 4, EvFetch ''x/e'' 4,
      EvAcquire 4, EvVisit ''x/e'' 4, EvRelease 6, EvAppend ''x/c'' 6,
      EvFetch ''x/c'' 6, EvAcquire 6, EvVisit ''x/c'' 6, EvAppend ''x/b'' 2,
      EvFetch ''x/b'' 2, EvAcquire 2, EvVisit ''x/b'' 2, EvAppend ''x/a'' 1,
      EvFetch ''x/a'' 1, EvAcquire 1, EvVisit ''x/a'' 1, EvAppend ''x/'' 0,
      EvFetch ''x/'' 0, EvAcquire 0, EvVisit ''x/'' 0]"
  by code_simp

lemma site_pcs:
  "map t_pc (tasks site_final) =
     [PDone None, PDone None, PDone None, PDone None, PDone (Some (StatusError 404)),
      PDone None, PDone None]"
  by code_simp

lemma site_urls:
  "map t_url (tasks site_final) = [''x/'', ''x/a'', ''x/b'', ''x/c'', ''x/e'', ''x/'', ''x/c#top'']"
  by code_simp

lemma site_returned: "returned site_final = Some None"
  by code_simp

lemma site_semaphore: "semaphore site_final = 0"
  by code_simp

lemma site_Crawl: "Crawl site_env site_crawler site_sched = Some (Inr (pages site_final))"
  by (simp add: Crawl_def site_state site_returned)

lemma flat_state: "Crawl_state site_env flat_crawler flat_sched = Some flat_final"
  by (simp add: Crawl_state_def flat_final_def site_env_def stub_lib_def stub_host_def
      flat_crawler_def New_def)

lemma flat_crawler_New: "flat_crawler = New ''x/'' 0 30 0"
  by (simp add: flat_crawler_def)

lemma flat_pages:
  "pages flat_final = [\<lparr>URL = ''x/'', Title = ''Home'', Content = ''h'', Depth = 0\<rparr>]"
  by code_simp

lemma flat_returned: "returned flat_final = Some None"
  by code_simp

lemma site_visited_e: "lookup (visited site_final) ''x/e''"
  by code_simp

lemma site_outcome_e: "fetch_outcome (http_Get site_env ''x/e'') = Inl (StatusError 404)"
  by (simp add: site_env_def stub_lib_def site_web_def)

lemma stub_fragment_blind: "fragment_blind (stub_lib web)"
  unfolding fragment_blind_def
proof (intro allI impI)
  fix r
  assume a: "hostname_of (stub_lib web) r \<noteq> None"
  then have sp: "CHR '' '' \<notin> set r"
    by (auto simp: hostname_of_def stub_lib_def split: if_splits)
  from normalizeURL_cut [of r]
  show "hostname_of (stub_lib web) (normalizeURL r) = hostname_of (stub_lib web) r"
  proof
    assume "normalizeURL r = r"
    then show ?thesis by simp
  next
    assume "\<exists>i. i < length r \<and> r ! i = CHR ''#'' \<and> normalizeURL r = take i r"
    then obtain i where i: "i < length r" "r ! i = CHR ''#''" "normalizeURL r = take i r"
      by blast
    from sp have "CHR '' '' \<notin> set (take i r)" by (auto dest: in_set_takeD)
    moreover from i(1,2) have "stub_host (take i r) = stub_host r"
      unfolding stub_host_def by (intro takeWhile_take_stop) simp_all
    ultimately show ?thesis using sp i(3)
      by (simp add: hostname_of_def stub_lib_def)
  qed
qed

lemma chain_state: "Crawl_state chain_env chain_crawler chain_sched = Some chain_final"
  by (simp add: Crawl_state_def chain_final_def chain_env_def stub_lib_def stub_host_def
      chain_crawler_def New_def)

subsection \<open>Claim C1\<close>

text \<open>
  C1: each canonical URL appears in the page list at most once and is fetched at most
  once, under every schedule. In every state of a crawl the URLs of the pages are
  distinct; the URLs inserted into the visited map, the URLs fetched and the URLs
  appended are each distinct; every fetch is made by the task that inserted the URL and
  every append by the task that fetched it; the page list holds exactly the appended
  URLs.
\<close>

theorem no_duplicate_visits:
  assumes "Crawl_state env (New b m t dl) sched = Some s"
  shows "distinct (map URL (pages s)) \<and>
    distinct (map fst (visits (trace s))) \<and>
    distinct (map fst (fetches (trace s))) \<and>
    set (fetches (trace s)) \<subseteq> set (visits (trace s)) \<and>
    set (appends (trace s)) \<subseteq> set (fetches (trace s)) \<and>
    map URL (pages s) = rev (map fst (appends (trace s))) \<and>
    (\<forall>ps. Crawl env (New b m t dl) sched = Some (Inr ps) \<longrightarrow> distinct (map URL ps))"
proof -
  from Crawl_state_inv [OF assms] have l: "inv_log s" by (simp add: inv_def)
  then have "distinct (rev (map fst (appends (trace s))))" by (simp add: inv_log_def)
  with l have d: "distinct (map URL (pages s))" by (simp add: inv_log_def)
  have "distinct (map URL ps)" if "Crawl env (New b m t dl) sched = Some (Inr ps)" for ps
    using Crawl_Inr [OF assms that] d by simp
  with l d show ?thesis by (simp add: inv_log_def)
qed

theorem no_duplicate_visits_witness:
  "Crawl_state site_env site_crawler site_sched = Some site_final \<and>
   map t_url (tasks site_final) = [''x/'', ''x/a'', ''x/b'', ''x/c'', ''x/e'', ''x/'', ''x/c#top''] \<and>
   map URL (pages site_final) = [''x/'', ''x/a'', ''x/b'', ''x/c''] \<and>
   distinct (map URL (pages site_final)) \<and>
   fetches (trace site_final) =
     [(''x/e'', 4), (''x/c'', 6), (''x/b'', 2), (''x/a'', 1), (''x/'', 0)] \<and>
   distinct (map fst (fetches (trace site_final))) \<and>
   set (fetches (trace site_final)) \<subseteq> set (visits (trace site_final))"
  using no_duplicate_visits [OF site_state [unfolded site_crawler_New]] site_state
  by (simp add: site_pages site_trace site_urls)

subsection \<open>Claim C2\<close>

text \<open>
  C2, as stated: only an unparseable seed URL makes \<open>Crawl\<close> return an error, and a
  failure fetching the seed page is not fatal. It fails: line 61 returns the error of
  the first \<open>crawlPage\<close> call. Here the seed parses, its page answers 404, and \<open>Crawl\<close>
  returns that error and no pages.
\<close>

theorem seed_failure_counterexample:
  "url_Parse site_env ''x/e'' = Some ''x/e'' \<and>
   Crawl site_env (New ''x/e'' 2 30 0) [0, 0, 0, 0, 0, 0] = Some (Inl (StatusError 404))"
  by code_simp

text \<open>
  C2, amended: when the seed URL does not parse, \<open>Crawl\<close> returns \<open>InvalidSeedURL\<close>. When
  it parses, \<open>maxDepth\<close> is not negative and the visit of the seed page itself fails
  (request construction, transport, a status other than 200, or an unparseable body),
  \<open>Crawl\<close> returns that error and no pages: after any schedule, six turns of the first
  call make it return. Whenever \<open>Crawl\<close> returns, it returns an error in these two cases
  only, and then that error; a failure at any other page never shows in the result,
  which is the list of the pages gathered.
\<close>

theorem crawl_error_only_from_seed:
  "(url_Parse env b = None \<longrightarrow>
      Crawl env (New b m t dl) sched = Some (Inl InvalidSeedURL)) \<and>
   (url_Parse env b \<noteq> None \<and> 0 \<le> m \<and>
      fetch_outcome (http_Get env (normalizeURL b)) = Inl e \<longrightarrow>
      Crawl env (New b m t dl) (sched @ [0, 0, 0, 0, 0, 0]) = Some (Inl e)) \<and>
   (\<forall>r. Crawl env (New b m t dl) sched = Some r \<longrightarrow>
      (\<forall>e. r = Inl e \<longleftrightarrow>
         url_Parse env b = None \<and> e = InvalidSeedURL \<or>
         url_Parse env b \<noteq> None \<and> 0 \<le> m \<and>
           fetch_outcome (http_Get env (normalizeURL b)) = Inl e) \<and>
      (\<forall>ps s. r = Inr ps \<and> Crawl_state env (New b m t dl) sched = Some s \<longrightarrow>
         ps = pages s))"
proof (intro conjI impI allI)
  assume "url_Parse env b = None"
  then show "Crawl env (New b m t dl) sched = Some (Inl InvalidSeedURL)"
    by (simp add: Crawl_def Crawl_state_def New_def)
next
  assume a: "url_Parse env b \<noteq> None \<and> 0 \<le> m \<and>
      fetch_outcome (http_Get env (normalizeURL b)) = Inl e"
  then obtain u where "url_Parse env b = Some u" by auto
  from seed_failure_returns [OF this] a
  show "Crawl env (New b m t dl) (sched @ [0, 0, 0, 0, 0, 0]) = Some (Inl e)" by simp
next
  fix r e'
  assume r: "Crawl env (New b m t dl) sched = Some r"
  from crawl_result_cases [OF r]
  show "r = Inl e' \<longleftrightarrow>
         url_Parse env b = None \<and> e' = InvalidSeedURL \<or>
         url_Parse env b \<noteq> None \<and> 0 \<le> m \<and>
           fetch_outcome (http_Get env (normalizeURL b)) = Inl e'"
    by blast
next
  fix r ps s
  assume r: "Crawl env (New b m t dl) sched = Some r"
    and "r = Inr ps \<and> Crawl_state env (New b m t dl) sched = Some s"
  with crawl_result_cases [OF r] show "ps = pages s" by blast
qed

theorem crawl_error_only_from_seed_witness:
  "url_Parse site_env ''x y'' = None \<and>
   Crawl site_env (New ''x y'' 2 30 0) [] = Some (Inl InvalidSeedURL) \<and>
   url_Parse site_env ''x/e'' \<noteq> None \<and>
   fetch_outcome (http_Get site_env (normalizeURL ''x/e'')) = Inl (StatusError 404) \<and>
   Crawl site_env (New ''x/e'' 2 30 0) ([0, 0, 0] @ [0, 0, 0, 0, 0, 0]) =
     Some (Inl (StatusError 404)) \<and>
   Crawl site_env site_crawler site_sched = Some (Inr (pages site_final)) \<and>
   map URL (pages site_final) = [''x/'', ''x/a'', ''x/b'', ''x/c''] \<and>
   t_url (tasks site_final ! 4) = ''x/e'' \<and>
   t_pc (tasks site_final ! 4) = PDone (Some (StatusError 404)) \<and>
   url_Parse site_env ''x/'' \<noteq> None \<and>
   (\<forall>e. fetch_outcome (http_Get site_env (normalizeURL ''x/'')) \<noteq> Inl e)"
proof -
  have n: "url_Parse site_env ''x y'' = None"
    by (simp add: site_env_def stub_lib_def)
  note c1 = crawl_error_only_from_seed
      [where env = site_env and b = "''x y''" and m = 2 and t = 30 and dl = 0 and sched = "[]",
        THEN conjunct1, THEN mp, OF n]
  have pe: "url_Parse site_env ''x/e'' \<noteq> None"
    by (simp add: site_env_def stub_lib_def)
  have oe: "fetch_outcome (http_Get site_env (normalizeURL ''x/e'')) = Inl (StatusError 404)"
    by (simp add: normalizeURL_def site_outcome_e)
  have m: "(0::int) \<le> 2" by simp
  note c2 = crawl_error_only_from_seed
      [where env = site_env and b = "''x/e''" and m = 2 and t = 30 and dl = 0 and
        sched = "[0, 0, 0]" and e = "StatusError 404",
        THEN conjunct2, THEN conjunct1, THEN mp, OF conjI [OF pe conjI [OF m oe]]]
  have a: "t_url (tasks site_final ! 4) = ''x/e''"
    "t_pc (tasks site_final ! 4) = PDone (Some (StatusError 404))"
    by code_simp+
  have p: "url_Parse site_env ''x/'' \<noteq> None"
    by (simp add: site_env_def stub_lib_def)
  note c3 = crawl_error_only_from_seed
      [where env = site_env and b = "''x/''" and m = 2 and t = 30 and dl = 2000000000 and
        sched = site_sched,
        THEN conjunct2, THEN conjunct2, THEN spec, THEN mp,
        OF site_Crawl [unfolded site_crawler_New], THEN conjunct1]
  have f: "\<forall>e. fetch_outcome (http_Get site_env (normalizeURL ''x/'')) \<noteq> Inl e"
  proof
    fix e
    from c3 [THEN spec, of e] p m
    show "fetch_outcome (http_Get site_env (normalizeURL ''x/'')) \<noteq> Inl e"
      by (simp only: sum.distinct simp_thms not_False_eq_True) 
  qed
  have u: "map URL (pages site_final) = [''x/'', ''x/a'', ''x/b'', ''x/c'']"
    by (simp add: site_pages)
  show ?thesis
    by (intro conjI n c1 pe oe c2 site_Crawl u a p f)
qed

subsection \<open>Claim C3\<close>

text \<open>
  C3, as stated: \<open>Crawl\<close> returns within a time bound derived from a configured total
  crawl time, with the pages gathered so far. \<open>Crawler\<close> has no such setting and nothing
  in \<open>Crawl\<close> or \<open>crawlPage\<close> observes a deadline. On a chain of six pages with
  \<open>maxDepth\<close> 5 this crawl reaches a state where the first call has not returned and no
  task can move: five calls hold the five slots while they wait for their child, and
  the sixth waits for a slot. By \<open>stuck_run\<close> the state never changes again, so \<open>Crawl\<close>
  does not return, within no bound.
\<close>

theorem no_deadline_counterexample:
  "Crawl_state chain_env chain_crawler chain_sched = Some chain_final \<and>
   stuck chain_env chain_final \<and> returned chain_final = None \<and>
   Crawl chain_env chain_crawler chain_sched = None \<and>
   map t_pc (tasks chain_final) = [PWait, PWait, PWait, PWait, PWait, PAcquire ''x/5''] \<and>
   semaphore chain_final = 5"
proof -
  have a: "stuck chain_env chain_final" "returned chain_final = None"
    "map t_pc (tasks chain_final) = [PWait, PWait, PWait, PWait, PWait, PAcquire ''x/5'']"
    "semaphore chain_final = 5"
    by code_simp+
  with chain_state show ?thesis by (simp add: Crawl_def)
qed

text \<open>
  C3, amended: \<open>Crawl\<close> has no deadline. When it returns, the traversal has unwound
  completely: every task has finished, the channel is empty, no further step changes
  the state, and the result is the whole page list with no error, or the error of the
  visit of the seed. Nothing is said about when, or whether, it returns.
\<close>

theorem crawl_returns_after_unwinding:
  assumes "Crawl_state env (New b m t dl) sched = Some s" "returned s = Some e"
  shows "(\<forall>j<length (tasks s). is_done (t_pc (tasks s ! j))) \<and> semaphore s = 0 \<and>
    (\<forall>rest. run env rest s = s) \<and>
    (\<forall>rest. Crawl env (New b m t dl) (sched @ rest) = Crawl env (New b m t dl) sched) \<and>
    Crawl env (New b m t dl) sched =
      Some (case e of None \<Rightarrow> Inr (pages s) | Some err \<Rightarrow> Inl err)"
proof -
  from Crawl_state_inv [OF assms(1)] have i: "inv env s" by simp
  then have sem: "inv_sem s" and wg: "inv_wg s" and tr: "inv_tree s"
    by (simp_all add: inv_def)
  from returned_pc [OF assms(2)] have "is_done (t_pc (tasks s ! 0))" by simp
  note fin = all_done [OF wg tr this]
  from holders_zero [of "tasks s"] fin sem have z: "semaphore s = 0"
    by (simp add: inv_sem_def)
  have still: "run env rest s = s" for rest
    by (rule done_run) (rule fin)
  have same: "Crawl env (New b m t dl) (sched @ rest) = Crawl env (New b m t dl) sched" for rest
    using Crawl_state_append [OF assms(1), of rest] assms(1) still [of rest]
    by (simp add: Crawl_def)
  have res: "Crawl env (New b m t dl) sched =
      Some (case e of None \<Rightarrow> Inr (pages s) | Some err \<Rightarrow> Inl err)"
    using assms by (simp add: Crawl_def split: option.splits)
  from fin z still same res show ?thesis by blast
qed

theorem crawl_returns_after_unwinding_witness:
  "Crawl_state site_env site_crawler site_sched = Some site_final \<and>
   returned site_final = Some None \<and>
   map t_pc (tasks site_final) =
     [PDone None, PDone None, PDone None, PDone None, PDone (Some (StatusError 404)),
      PDone None, PDone None] \<and>
   semaphore site_final = 0 \<and>
   run site_env [0, 1, 2, 3, 4, 5, 6] site_final = site_final \<and>
   Crawl site_env site_crawler site_sched = Some (Inr (pages site_final))"
proof -
  note inst =
    crawl_returns_after_unwinding [OF site_state [unfolded site_crawler_New] site_returned]
  from inst have r: "run site_env [0, 1, 2, 3, 4, 5, 6] site_final = site_final" by blast
  from inst have z: "semaphore site_final = 0" by blast
  show ?thesis
    by (intro conjI site_state site_returned site_pcs z r site_Crawl)
qed

subsection \<open>Claim C4\<close>

text \<open>
  C4: in every state of a crawl every page has a depth between 0 and \<open>maxDepth\<close>; a
  page has the canonical seed URL exactly when its depth is 0; and when \<open>maxDepth\<close> is 0
  and \<open>Crawl\<close> returns without error, the page list is the seed page alone.
\<close>

theorem depth_bound:
  assumes "Crawl_state env (New b m t dl) sched = Some s"
  shows "(\<forall>p\<in>set (pages s). 0 \<le> Depth p \<and> Depth p \<le> m \<and>
            ((URL p = normalizeURL b) = (Depth p = 0))) \<and>
         (m = 0 \<and> returned s = Some None \<longrightarrow>
            (\<exists>d. fetch_outcome (http_Get env (normalizeURL b)) = Inr d \<and>
               pages s = [\<lparr>URL = normalizeURL b, Title = doc_title d, Content = doc_content d,
                           Depth = 0\<rparr>]))"
proof -
  from Crawl_state_inv [OF assms] have i: "inv env s" and b: "baseURL s = b" and m: "maxDepth s = m"
    by simp_all
  from i have dep: "inv_depth s" and sd: "inv_seed_depth s" and l: "inv_log s"
    and sp: "inv_root_page env s" and se: "inv_seed s" and tr: "inv_tree s"
    by (simp_all add: inv_def)
  have first: "\<forall>p\<in>set (pages s). 0 \<le> Depth p \<and> Depth p \<le> m \<and>
            ((URL p = normalizeURL b) = (Depth p = 0))"
    using dep sd b m by (auto simp: inv_depth_def inv_seed_depth_def)
  have second: "\<exists>d. fetch_outcome (http_Get env (normalizeURL b)) = Inr d \<and>
       pages s = [\<lparr>URL = normalizeURL b, Title = doc_title d, Content = doc_content d, Depth = 0\<rparr>]"
    if m0: "m = 0" and ret: "returned s = Some None"
  proof -
    from returned_pc [OF ret] have pc: "t_pc (tasks s ! 0) = PDone None" .
    with se m m0 have v: "(normalizeURL b, 0) \<in> set (visits (trace s))"
      using b by (auto simp: inv_seed_def)
    with sp pc b have "\<exists>d. fetch_outcome (http_Get env (normalizeURL b)) = Inr d \<and>
       \<lparr>URL = normalizeURL b, Title = doc_title d, Content = doc_content d, Depth = 0\<rparr>
         \<in> set (pages s)"
      by (simp add: inv_root_page_def)
    then obtain d where d: "fetch_outcome (http_Get env (normalizeURL b)) = Inr d"
      and p: "\<lparr>URL = normalizeURL b, Title = doc_title d, Content = doc_content d, Depth = 0\<rparr>
         \<in> set (pages s)"
      by blast
    have all: "\<forall>p\<in>set (pages s). URL p = normalizeURL b"
    proof
      fix p assume "p \<in> set (pages s)"
      with first m0 have "0 \<le> Depth p" "Depth p \<le> 0" "(URL p = normalizeURL b) = (Depth p = 0)"
        by blast+
      then show "URL p = normalizeURL b" by linarith
    qed
    from l have "distinct (rev (map fst (appends (trace s))))" by (simp add: inv_log_def)
    with l have "distinct (map URL (pages s))" by (simp add: inv_log_def)
    from one_key [OF this all p] have "pages s =
        [\<lparr>URL = normalizeURL b, Title = doc_title d, Content = doc_content d, Depth = 0\<rparr>]" .
    with d show ?thesis by (intro exI [of _ d] conjI)
  qed
  show ?thesis
  proof (intro conjI impI)
    show "\<forall>p\<in>set (pages s). 0 \<le> Depth p \<and> Depth p \<le> m \<and>
            ((URL p = normalizeURL b) = (Depth p = 0))" by (rule first)
  next
    assume "m = 0 \<and> returned s = Some None"
    then show "\<exists>d. fetch_outcome (http_Get env (normalizeURL b)) = Inr d \<and>
       pages s = [\<lparr>URL = normalizeURL b, Title = doc_title d, Content = doc_content d, Depth = 0\<rparr>]"
      using second by simp
  qed
qed

theorem depth_bound_witness:
  "Crawl_state site_env site_crawler site_sched = Some site_final \<and>
   map Depth (pages site_final) = [0, 1, 1, 2] \<and>
   Crawl_state site_env flat_crawler flat_sched = Some flat_final \<and>
   returned flat_final = Some None \<and>
   pages flat_final = [\<lparr>URL = ''x/'', Title = ''Home'', Content = ''h'', Depth = 0\<rparr>]"
  using depth_bound [OF site_state [unfolded site_crawler_New]]
    depth_bound [OF flat_state [unfolded flat_crawler_New]] site_state flat_state
  by (simp add: site_pages flat_pages flat_returned)

subsection \<open>Claim C5\<close>

text \<open>
  C5: the hostname of a URL depends only on the part before the fragment sign, as it
  does for \<open>url.Parse\<close> (\<open>fragment_blind\<close>). Then in every state of a crawl every page
  has the hostname of the seed URL, every call of \<open>crawlPage\<close> carries that hostname as
  its \<open>baseDomain\<close>, and a link is followed only to a URL with the \<open>baseDomain\<close> of the
  page it stands on.
\<close>

theorem domain_filter:
  assumes "fragment_blind env" "Crawl_state env (New b m t dl) sched = Some s"
  shows "(\<forall>p\<in>set (pages s). hostname_of env (URL p) = hostname_of env b) \<and>
    (\<forall>j<length (tasks s). Some (t_domain (tasks s ! j)) = hostname_of env b) \<and>
    (\<forall>n d a u. link_target env n d a = Some u \<longrightarrow> hostname_of env u = Some d)"
proof -
  from inv_domain_run [OF assms] obtain d where d: "hostname_of env b = Some d"
    and i: "inv_domain env d s" by blast
  from i d show ?thesis
    by (auto simp: inv_domain_def dest: link_target_host)
qed

theorem domain_filter_witness:
  "fragment_blind site_env \<and>
   Crawl_state site_env site_crawler site_sched = Some site_final \<and>
   hostname_of site_env ''x/'' = Some ''x'' \<and>
   map (hostname_of site_env \<circ> URL) (pages site_final) = [Some ''x'', Some ''x'', Some ''x'', Some ''x''] \<and>
   Some ''o/page'' \<in> set (doc_anchors (projr (fetch_outcome (http_Get site_env ''x/'')))) \<and>
   link_target site_env ''x/'' ''x'' (Some ''o/page'') = None \<and>
   ''o/page'' \<notin> URL ` set (pages site_final)"
proof -
  have fb: "fragment_blind site_env"
    unfolding site_env_def by (rule stub_fragment_blind)
  have h: "hostname_of site_env ''x/'' = Some ''x''"
    by (simp add: hostname_of_def site_env_def stub_lib_def stub_host_def)
  have l: "link_target site_env ''x/'' ''x'' (Some ''o/page'') = None"
    by code_simp
  have a: "Some ''o/page'' \<in> set (doc_anchors (projr (fetch_outcome (http_Get site_env ''x/''))))"
    by (simp add: site_env_def stub_lib_def site_web_def)
  from domain_filter [OF fb site_state [unfolded site_crawler_New]] h
  have "\<forall>p\<in>set (pages site_final). hostname_of site_env (URL p) = Some ''x''" by simp
  then have "map (hostname_of site_env \<circ> URL) (pages site_final) =
      [Some ''x'', Some ''x'', Some ''x'', Some ''x'']"
    by (simp add: site_pages)
  with fb site_state h l a show ?thesis by (simp add: site_pages)
qed

subsection \<open>The channel in every state\<close>

text \<open>
  In every state of a crawl at most 5 tasks are between line 88 and the end of the
  fetch; the channel holds as many elements as there are tasks between line 88 and
  their deferred receive, at most 5; a task that has returned has received from the
  channel exactly as often as it has sent, at most once; a task that holds a slot has
  sent once and not yet received; and when \<open>Crawl\<close> returns the channel is empty.
\<close>

lemma concurrency_bound:
  assumes "Crawl_state env (New b m t dl) sched = Some s"
  shows "in_flight (tasks s) \<le> 5 \<and> semaphore s \<le> 5 \<and> semaphore s = holders (tasks s) \<and>
    (\<forall>j<length (tasks s). finished (t_pc (tasks s ! j)) \<longrightarrow>
       count_list (trace s) (EvAcquire j) = count_list (trace s) (EvRelease j) \<and>
       count_list (trace s) (EvRelease j) \<le> 1) \<and>
    (\<forall>j<length (tasks s). holds (t_pc (tasks s ! j)) \<longrightarrow>
       count_list (trace s) (EvAcquire j) = 1 \<and> count_list (trace s) (EvRelease j) = 0) \<and>
    (returned s \<noteq> None \<longrightarrow> semaphore s = 0)"
proof -
  from Crawl_state_inv [OF assms] have i: "inv env s" by simp
  then have sem: "inv_sem s" and pair: "inv_pair s" and wg: "inv_wg s" and tr: "inv_tree s"
    by (simp_all add: inv_def)
  from sem have a: "semaphore s = holders (tasks s)" "semaphore s \<le> 5"
    by (simp_all add: inv_sem_def semaphore_cap_def)
  with in_flight_le_holders [of "tasks s"] have b: "in_flight (tasks s) \<le> 5" by simp
  have ok: "slot_ok (trace s) j (t_pc (tasks s ! j))" if "j < length (tasks s)" for j
    using pair that unfolding inv_pair_def by (auto split: if_splits)
  have c: "count_list (trace s) (EvAcquire j) = count_list (trace s) (EvRelease j) \<and>
       count_list (trace s) (EvRelease j) \<le> 1"
    if "j < length (tasks s)" "finished (t_pc (tasks s ! j))" for j
    using ok [OF that(1)] that(2) by (cases "t_pc (tasks s ! j)") (simp_all add: slot_ok_def)
  have d: "count_list (trace s) (EvAcquire j) = 1 \<and> count_list (trace s) (EvRelease j) = 0"
    if "j < length (tasks s)" "holds (t_pc (tasks s ! j))" for j
    using ok [OF that(1)] that(2) by (cases "t_pc (tasks s ! j)") (simp_all add: slot_ok_def)
  have e: "semaphore s = 0" if "returned s \<noteq> None"
  proof -
    from that obtain eo where "returned s = Some eo" by auto
    from returned_pc [OF this] have "is_done (t_pc (tasks s ! 0))" by simp
    from holders_zero [of "tasks s"] all_done [OF wg tr this] a(1) show ?thesis by simp
  qed
  from a b c d e show ?thesis by blast
qed

lemma concurrency_bound_runs:
  "Crawl_state site_env site_crawler site_sched = Some site_final \<and>
   returned site_final = Some None \<and> semaphore site_final = 0 \<and>
   t_pc (tasks site_final ! 4) = PDone (Some (StatusError 404)) \<and>
   count_list (trace site_final) (EvAcquire 4) = 1 \<and>
   count_list (trace site_final) (EvRelease 4) = 1 \<and>
   count_list (trace site_final) (EvAcquire 3) = 0 \<and>
   Crawl_state chain_env chain_crawler chain_sched = Some chain_final \<and>
   semaphore chain_final = 5 \<and> holders (tasks chain_final) = 5 \<and>
   in_flight (tasks chain_final) = 0"
proof -
  have cs: "Crawl_state chain_env chain_crawler chain_sched = Some chain_final"
    by (simp add: Crawl_state_def chain_final_def chain_env_def stub_lib_def stub_host_def
        chain_crawler_def New_def)
  have c5: "semaphore chain_final = 5" "in_flight (tasks chain_final) = 0"
    by code_simp+
  have pc4: "t_pc (tasks site_final ! 4) = PDone (Some (StatusError 404))"
    by code_simp
  from concurrency_bound [OF cs [unfolded chain_crawler_def]] c5
  have "holders (tasks chain_final) = 5" by simp
  with concurrency_bound [OF site_state [unfolded site_crawler_New]] site_state cs c5 pc4
  show ?thesis by (simp add: site_returned site_semaphore site_trace)
qed

subsection \<open>Claim C6\<close>

text \<open>
  C6: at most 5 fetches are in flight, and every acquisition of a slot is paired with
  one release, so that no slot leaks. The bound holds (\<open>concurrency_bound\<close>); the
  pairing does not. The receive of line 89 is deferred to the return of \<open>crawlPage\<close>,
  after \<open>wg.Wait()\<close>, so a call keeps its slot while it waits for its children. On the
  chain of six pages with \<open>maxDepth\<close> 5, after \<open>chain_sched\<close> and whatever schedule
  follows it, the calls of depth 0 to 4 have each sent once and never received, the
  channel is full, the sixth call cannot send, and \<open>Crawl\<close> has not returned.
\<close>

theorem slots_never_released:
  "Crawl_state chain_env chain_crawler (chain_sched @ rest) = Some chain_final \<and>
   Crawl chain_env chain_crawler (chain_sched @ rest) = None \<and>
   semaphore chain_final = 5 \<and>
   map t_pc (tasks chain_final) = [PWait, PWait, PWait, PWait, PWait, PAcquire ''x/5''] \<and>
   map (count_list (trace chain_final))
     [EvAcquire 0, EvAcquire 1, EvAcquire 2, EvAcquire 3, EvAcquire 4] = [1, 1, 1, 1, 1] \<and>
   map (count_list (trace chain_final))
     [EvRelease 0, EvRelease 1, EvRelease 2, EvRelease 3, EvRelease 4] = [0, 0, 0, 0, 0]"
proof -
  have st: "stuck chain_env chain_final" and ret: "returned chain_final = None"
    by code_simp+
  from Crawl_state_append [OF chain_state, of rest] stuck_run [OF st, of rest]
  have a: "Crawl_state chain_env chain_crawler (chain_sched @ rest) = Some chain_final"
    by simp
  with ret have b: "Crawl chain_env chain_crawler (chain_sched @ rest) = None"
    by (simp add: Crawl_def)
  have c: "semaphore chain_final = 5"
    "map t_pc (tasks chain_final) = [PWait, PWait, PWait, PWait, PWait, PAcquire ''x/5'']"
    "map (count_list (trace chain_final))
       [EvAcquire 0, EvAcquire 1, EvAcquire 2, EvAcquire 3, EvAcquire 4] = [1, 1, 1, 1, 1]"
    "map (count_list (trace chain_final))
       [EvRelease 0, EvRelease 1, EvRelease 2, EvRelease 3, EvRelease 4] = [0, 0, 0, 0, 0]"
    by code_simp+
  show ?thesis
    by (intro conjI a b c)
qed

subsection \<open>Claim C7\<close>

text \<open>
  C7: after the insertion into the visited map a task is to wait for \<open>delay\<close> before it
  fetches. \<open>New\<close> stores the delay, and no step of \<open>crawlPage\<close> reads it: the state
  reached under a schedule with any delay is the state reached with delay 0, apart from
  the field itself, and so are the result of \<open>Crawl\<close> and the sequence of events. With
  a delay of 2 seconds the first four steps of the site crawl are the entry check,
  the insertion, the send on the channel and the fetch, with nothing in between.
\<close>

theorem delay_never_read:
  "run env sched (start (New b m t dl) h) = (run env sched (start (New b m t 0) h))\<lparr>delay := dl\<rparr> \<and>
   Crawl env (New b m t dl) sched = Crawl env (New b m t 0) sched \<and>
   map_option trace (Crawl_state env (New b m t dl) sched) =
     map_option trace (Crawl_state env (New b m t 0) sched) \<and>
   delay site_crawler = 2000000000 \<and>
   map_option trace (Crawl_state site_env site_crawler [0, 0, 0, 0]) =
     Some [EvFetch ''x/'' 0, EvAcquire 0, EvVisit ''x/'' 0]"
proof -
  have a: "run env sched (start (New b m t dl) h) =
      (run env sched (start (New b m t 0) h))\<lparr>delay := dl\<rparr>" for h
    by (subst New_delay) (simp only: start_delay run_delay)
  have base: "baseURL (New b m t dl) = baseURL (New b m t 0)"
    by (simp add: New_def)
  have st: "Crawl_state env (New b m t dl) sched =
      map_option (\<lambda>s. s\<lparr>delay := dl\<rparr>) (Crawl_state env (New b m t 0) sched)"
    by (simp add: Crawl_state_def base a split: option.splits)
  have c: "Crawl env (New b m t dl) sched = Crawl env (New b m t 0) sched"
    by (simp add: Crawl_def st returned_delay split: option.splits)
  have d: "map_option trace (Crawl_state env (New b m t dl) sched) =
     map_option trace (Crawl_state env (New b m t 0) sched)"
    by (simp add: st option.map_comp comp_def)
  have e: "delay site_crawler = 2000000000"
    by (simp add: site_crawler_def New_def)
  have f: "map_option trace (Crawl_state site_env site_crawler [0, 0, 0, 0]) =
     Some [EvFetch ''x/'' 0, EvAcquire 0, EvVisit ''x/'' 0]"
    by code_simp
  from a c d e f show ?thesis by simp
qed

subsection \<open>Claim C8\<close>

text \<open>
  C8, as stated: canonicalization is idempotent and two URLs that differ only in their
  fragment get the same key. The second half fails for a string whose first byte is the
  fragment sign: line 179 strips only when the index is greater than 0, so \<open>#a\<close> and
  \<open>#b\<close>, which differ only in the fragment, keep different keys.
\<close>

theorem normalizeURL_fragment_counterexample:
  "normalizeURL ([] @ CHR ''#'' # ''a'') \<noteq> normalizeURL ([] @ CHR ''#'' # ''b'')"
  by (simp add: normalizeURL_def)

text \<open>
  C8, amended: \<open>normalizeURL\<close> is idempotent on every string; a string without a
  fragment sign (whatever its query string or trailing slash) is unchanged; a non-empty
  part \<open>p\<close> without a fragment sign followed by any fragment is mapped to \<open>p\<close>, so two
  such URLs that differ only in the fragment get the same key; a string that starts
  with the fragment sign is unchanged.
\<close>

theorem normalizeURL_canonical:
  "normalizeURL (normalizeURL u) = normalizeURL u \<and>
   (CHR ''#'' \<notin> set u \<longrightarrow> normalizeURL u = u) \<and>
   (p \<noteq> [] \<and> CHR ''#'' \<notin> set p \<longrightarrow>
      normalizeURL (p @ CHR ''#'' # f) = p \<and>
      normalizeURL (p @ CHR ''#'' # f) = normalizeURL (p @ CHR ''#'' # g)) \<and>
   normalizeURL (CHR ''#'' # f) = CHR ''#'' # f"
  by (simp add: normalizeURL_idem normalizeURL_no_fragment normalizeURL_strip
      normalizeURL_leading)

theorem normalizeURL_canonical_witness:
  "normalizeURL (normalizeURL ''x.test/a?q=1#top'') = normalizeURL ''x.test/a?q=1#top'' \<and>
   normalizeURL ''x.test/a?q=1#top'' = ''x.test/a?q=1'' \<and>
   normalizeURL (''x.test/a/'' @ CHR ''#'' # ''top'') = ''x.test/a/'' \<and>
   normalizeURL (''x.test/a/'' @ CHR ''#'' # ''top'') =
     normalizeURL (''x.test/a/'' @ CHR ''#'' # ''end'') \<and>
   normalizeURL ''x.test/a?q=1'' = ''x.test/a?q=1''"
  using normalizeURL_canonical [of "''x.test/a?q=1#top''" "''x.test/a/''" "''top''" "''end''"]
    normalizeURL_canonical [of "''x.test/a?q=1''" "''x.test/a/''" "''top''" "''end''"]
  by (simp add: normalizeURL_def)

subsection \<open>Claim C9\<close>

text \<open>
  C9: in every state of a crawl, every fetch event is preceded by the insertion of the
  same URL by the same task (\<open>ordered\<close>), so every fetched URL is in the visited map; a
  visited URL stays visited however the crawl continues; no URL is fetched twice; and a
  URL whose fetch or parse fails is the URL of no page.
\<close>

theorem visited_before_fetch_for_good:
  assumes "Crawl_state env (New b m t dl) sched = Some s"
  shows "ordered (trace s) \<and>
    (\<forall>x\<in>set (fetches (trace s)). lookup (visited s) (fst x)) \<and>
    distinct (map fst (fetches (trace s))) \<and>
    (\<forall>n rest s'. lookup (visited s) n \<and>
        Crawl_state env (New b m t dl) (sched @ rest) = Some s' \<longrightarrow> lookup (visited s') n) \<and>
    (\<forall>p\<in>set (pages s). \<forall>e. fetch_outcome (http_Get env (URL p)) \<noteq> Inl e)"
proof -
  from Crawl_state_inv [OF assms] have l: "inv_log s" and w: "inv_web env s"
    by (simp_all add: inv_def)
  from l have a: "ordered (trace s)" and c: "distinct (map fst (fetches (trace s)))"
    and sub: "set (fetches (trace s)) \<subseteq> set (visits (trace s))"
    and look: "\<And>n. lookup (visited s) n = (n \<in> fst ` set (visits (trace s)))"
    by (simp_all add: inv_log_def)
  have b: "\<forall>x\<in>set (fetches (trace s)). lookup (visited s) (fst x)"
    using sub look by auto
  have d: "lookup (visited s') n"
    if "lookup (visited s) n" "Crawl_state env (New b m t dl) (sched @ rest) = Some s'"
    for n rest s'
    using Crawl_state_append [OF assms, of rest] that run_visited_mono [of s n env rest]
    by simp
  have e: "\<forall>p\<in>set (pages s). \<forall>e. fetch_outcome (http_Get env (URL p)) \<noteq> Inl e"
    using inv_web_page [OF _ w] by fastforce
  from a b c d e show ?thesis by blast
qed

theorem visited_before_fetch_for_good_witness:
  "Crawl_state site_env site_crawler site_sched = Some site_final \<and>
   fetch_outcome (http_Get site_env ''x/e'') = Inl (StatusError 404) \<and>
   (''x/e'', 4) \<in> set (fetches (trace site_final)) \<and>
   lookup (visited site_final) ''x/e'' \<and>
   ''x/e'' \<notin> URL ` set (pages site_final) \<and>
   distinct (map fst (fetches (trace site_final))) \<and>
   ordered (trace site_final)"
  using visited_before_fetch_for_good [OF site_state [unfolded site_crawler_New]] site_state
    site_outcome_e site_visited_e
  by (simp add: site_pages site_trace)

subsection \<open>Claim C10\<close>

text \<open>
  C10: with a parseable seed URL and a negative \<open>maxDepth\<close>, the schedule that lets the
  first call run returns the empty page list and no error; under every schedule
  \<open>Crawl\<close> can only return that; and no state of the crawl has an event (no
  insertion into the visited map, no fetch), a visited URL or a page.
\<close>

theorem negative_depth_no_op:
  assumes "url_Parse env b = Some u" "m < 0"
  shows "Crawl env (New b m t dl) [0, 0] = Some (Inr []) \<and>
    (\<forall>sched r. Crawl env (New b m t dl) sched = Some r \<longrightarrow> r = Inr []) \<and>
    (\<forall>sched s. Crawl_state env (New b m t dl) sched = Some s \<longrightarrow>
       trace s = [] \<and> visited s = Map.empty \<and> pages s = [])"
proof -
  have run2: "Crawl env (New b m t dl) [0, 0] = Some (Inr [])"
    using assms
    by (simp add: Crawl_def Crawl_state_def start_def New_def step_def upd_defs returned_def)
  have fr: "fresh s \<and> (returned s \<noteq> None \<longrightarrow> returned s = Some None)"
    if "Crawl_state env (New b m t dl) sched = Some s" for sched s
  proof -
    from Crawl_state_inv [OF that] have se: "inv_seed s" and m: "maxDepth s = m"
      by (simp_all add: inv_def)
    with assms(2) have f: "fresh s" and pc: "t_pc (tasks s ! 0) = PEntry \<or>
        t_pc (tasks s ! 0) = PRet None \<or> t_pc (tasks s ! 0) = PDone None"
      by (auto simp: inv_seed_def)
    from pc have "returned s \<noteq> None \<longrightarrow> returned s = Some None"
      using returned_pc [of s] by (cases "returned s") auto
    with f show ?thesis by simp
  qed
  have res: "r = Inr []" if "Crawl env (New b m t dl) sched = Some r" for sched r
  proof -
    from assms(1) obtain s where s: "Crawl_state env (New b m t dl) sched = Some s"
      by (simp add: Crawl_state_def New_def)
    from fr [OF s] that s show ?thesis
      by (auto simp: Crawl_def fresh_def split: option.splits)
  qed
  have st: "trace s = [] \<and> visited s = Map.empty \<and> pages s = []"
    if "Crawl_state env (New b m t dl) sched = Some s" for sched s
    using fr [OF that] by (simp add: fresh_def)
  show ?thesis
  proof (intro conjI allI impI)
    show "Crawl env (New b m t dl) [0, 0] = Some (Inr [])" by (rule run2)
  next
    fix sched r assume "Crawl env (New b m t dl) sched = Some r"
    then show "r = Inr []" by (rule res)
  next
    fix sched s assume a: "Crawl_state env (New b m t dl) sched = Some s"
    from st [OF a] show "trace s = []" "visited s = Map.empty" "pages s = []" by simp_all
  qed
qed

theorem negative_depth_no_op_witness:
  "url_Parse site_env ''x/'' = Some ''x/'' \<and> (- 1 :: int) < 0 \<and>
   Crawl site_env (New ''x/'' (- 1) 30 0) [0, 0] = Some (Inr []) \<and>
   Crawl_state site_env (New ''x/'' (- 1) 30 0) [0] \<noteq> None \<and>
   map_option trace (Crawl_state site_env (New ''x/'' (- 1) 30 0) [0]) = Some []"
proof -
  have p: "url_Parse site_env ''x/'' = Some ''x/''"
    by (simp add: site_env_def stub_lib_def)
  have m: "(- 1 :: int) < 0" by simp
  from p obtain s where s: "Crawl_state site_env (New ''x/'' (- 1) 30 0) [0] = Some s"
    by (simp add: Crawl_state_def New_def)
  note inst = negative_depth_no_op [OF p m, of 30 0]
  from inst have a: "Crawl site_env (New ''x/'' (- 1) 30 0) [0, 0] = Some (Inr [])" by blast
  from inst s have "trace s = []" by blast
  with a s p show ?thesis by simp
qed

end
